theory Spec2Isabelle
  imports Main "HOL-Library.Sublist"
begin

text \<open>
  A model of \<open>src/compilers/brainbang_compiler.py\<close>, the BrainBang to Brainfuck
  compiler: the class \<open>BrainBangCompiler\<close> with its method \<open>compile\<close> and everything
  \<open>compile\<close> calls. A method that changes the object takes the compiler and returns the
  changed one; a method that can raise returns a sum, with the exception on the left.
  The command-line wrapper \<open>main\<close> is not modelled.
\<close>

section \<open>Python strings and the built-ins the compiler calls\<close>

text \<open>
  A Python \<open>str\<close> is a sequence of Unicode code points, and the compiler looks at
  \<open>ord(char)\<close> of arbitrary characters, so a string is a list of code points (natural
  numbers), not a list of 8-bit \<open>char\<close>s. \<open>ustr\<close> writes an ASCII literal.
\<close>

type_synonym ustring = "nat list"

definition ustr :: "string \<Rightarrow> ustring" where
  "ustr s = map of_char s"

text \<open>\<open>s.startswith(p)\<close> and \<open>s.endswith(p)\<close>.\<close>

definition startswith :: "ustring \<Rightarrow> ustring \<Rightarrow> bool" where
  "startswith s p \<longleftrightarrow> prefix p s"

definition endswith :: "ustring \<Rightarrow> ustring \<Rightarrow> bool" where
  "endswith s p \<longleftrightarrow> suffix p s"

text \<open>
  \<open>s.index(sub)\<close>: the position of the first occurrence of \<open>sub\<close> in \<open>s\<close>;
  \<open>None\<close> where Python's \<open>sub in s\<close> is false.
\<close>

fun str_index :: "ustring \<Rightarrow> ustring \<Rightarrow> nat option" where
  "str_index [] sub = (if sub = [] then Some 0 else None)"
| "str_index (c # cs) sub =
     (if prefix sub (c # cs) then Some 0 else map_option Suc (str_index cs sub))"

text \<open>
  \<open>s.split(sep)\<close> for a separator of one character: the pieces between the
  separators, always at least one piece.
\<close>

fun str_split :: "ustring \<Rightarrow> nat \<Rightarrow> ustring list" where
  "str_split [] sep = [[]]"
| "str_split (c # cs) sep =
     (if c = sep then [] # str_split cs sep
      else (case str_split cs sep of
              [] \<Rightarrow> [[c]]
            | piece # pieces \<Rightarrow> (c # piece) # pieces))"

text \<open>
  \<open>s.strip()\<close> removes the white space at both ends. White space is what CPython's
  \<open>Py_UNICODE_ISSPACE\<close> accepts: the code points 9 to 13, 28 to 32, 0x85, 0xA0, 0x1680,
  0x2000 to 0x200A, 0x2028, 0x2029, 0x202F, 0x205F and 0x3000.
\<close>

definition isspace :: "nat \<Rightarrow> bool" where
  "isspace c \<longleftrightarrow>
     (9 \<le> c \<and> c \<le> 13) \<or> (28 \<le> c \<and> c \<le> 32) \<or> c = 133 \<or> c = 160 \<or> c = 5760 \<or>
     (8192 \<le> c \<and> c \<le> 8202) \<or> c = 8232 \<or> c = 8233 \<or> c = 8239 \<or> c = 8287 \<or> c = 12288"

definition strip :: "ustring \<Rightarrow> ustring" where
  "strip s = rev (dropWhile isspace (rev (dropWhile isspace s)))"

text \<open>\<open>s * n\<close>: the string repeated \<open>n\<close> times.\<close>

definition str_mul :: "ustring \<Rightarrow> nat \<Rightarrow> ustring" where
  "str_mul s n = concat (replicate n s)"

text \<open>
  \<open>s.isdigit()\<close> and \<open>int(s)\<close> depend on the Unicode character database of the
  Python runtime: \<open>isdigit\<close> accepts every character whose numeric type is Digit or
  Decimal, while \<open>int\<close> converts decimal characters only and raises \<open>ValueError\<close> on the
  others. The database is a parameter of the model: a table that gives each code point
  its class, and its value when it is a decimal digit. \<open>int_of_str\<close> is the exact
  conversion: Python's integers are unbounded. The limit that CPython 3.11 and later put
  on the number of digits \<open>int\<close> converts (4300 unless
  \<open>sys.set_int_max_str_digits\<close> changes it) is not part of the model, which is the
  conversion of a runtime without that limit.
\<close>

datatype digit_class = NoDigit | DigitOnly | Decimal nat

type_synonym digit_table = "nat \<Rightarrow> digit_class"

definition isdigit :: "digit_table \<Rightarrow> ustring \<Rightarrow> bool" where
  "isdigit U s \<longleftrightarrow> s \<noteq> [] \<and> list_all (\<lambda>c. U c \<noteq> NoDigit) s"

fun int_digits :: "digit_table \<Rightarrow> nat \<Rightarrow> ustring \<Rightarrow> nat option" where
  "int_digits U acc [] = Some acc"
| "int_digits U acc (c # cs) =
     (case U c of
        Decimal d \<Rightarrow> int_digits U (10 * acc + d) cs
      | _ \<Rightarrow> None)"

definition int_of_str :: "digit_table \<Rightarrow> ustring \<Rightarrow> nat option" where
  "int_of_str U s = (if s = [] then None else int_digits U 0 s)"

text \<open>The table of a runtime that knows the ASCII digits only.\<close>

definition ascii_digits :: digit_table where
  "ascii_digits c = (if 48 \<le> c \<and> c \<le> 57 then Decimal (c - 48) else NoDigit)"

section \<open>The compiler\<close>

text \<open>
  The exceptions the compiler raises, one constructor per \<open>raise\<close> of the source, with
  the value its message shows. \<open>InvalidIntLiteral\<close> is the \<open>ValueError\<close> of \<open>int()\<close>;
  \<open>ErrorOnLine n e\<close> is the \<open>SyntaxError\<close> that \<open>compile\<close> raises in place of an exception
  \<open>e\<close> of \<open>_process_line\<close>.
\<close>

datatype exn =
    LineMustEndWithSemicolon ustring
  | UnknownStatement ustring
  | ValueTooLarge nat
  | InvalidEntValue ustring
  | InvalidShiftOperator ustring
  | InvalidShiftNumber ustring
  | ShiftsNotPositive ustring
  | InvalidIncAmount ustring
  | IncNotPositive nat
  | InvalidIncStatement ustring
  | InvalidDecAmount ustring
  | DecNotPositive nat
  | InvalidDecStatement ustring
  | InvalidIntLiteral ustring
  | ErrorOnLine nat exn

datatype exn_class = SyntaxError | ValueError

fun class_of :: "exn \<Rightarrow> exn_class" where
  "class_of (ValueTooLarge n) = ValueError"
| "class_of (InvalidIntLiteral s) = ValueError"
| "class_of e = SyntaxError"

text \<open>The line number an exception carries, if it carries one.\<close>

fun line_of :: "exn \<Rightarrow> nat option" where
  "line_of (ErrorOnLine n e) = Some n"
| "line_of e = None"

text \<open>The fields of \<open>BrainBangCompiler\<close>; \<open>loop_stack[-1]\<close> is the last element.\<close>

record compiler =
  output_chunks :: "ustring list"
  current_indent :: nat
  loop_stack :: "nat list"

text \<open>\<open>self.output.append(s)\<close>\<close>

definition output_append :: "compiler \<Rightarrow> ustring \<Rightarrow> compiler" where
  "output_append self s = self\<lparr>output_chunks := output_chunks self @ [s]\<rparr>"

subsection \<open>\<open>_preprocess_lines\<close>\<close>

text \<open>The loop that measures the indentation: a space counts 1, a tab 4.\<close>

fun indent_loop :: "nat \<Rightarrow> ustring \<Rightarrow> nat" where
  "indent_loop indent_level [] = indent_level"
| "indent_loop indent_level (char # rest) =
     (if char = 32 then indent_loop (indent_level + 1) rest
      else if char = 9 then indent_loop (indent_level + 4) rest
      else indent_level)"

text \<open>
  Removing the comment of a line: \<open>if '//' in line: line = line[:line.index('//')]\<close>.
\<close>

definition remove_comment :: "ustring \<Rightarrow> ustring" where
  "remove_comment line =
     (case str_index line (ustr ''//'') of
        Some i \<Rightarrow> take i line
      | None \<Rightarrow> line)"

text \<open>
  The loop over the lines; \<open>processed\<close> is the list built so far. The first line
  whose content ends with neither a colon nor a semicolon raises.
\<close>

fun preprocess_loop ::
  "(nat \<times> ustring) list \<Rightarrow> ustring list \<Rightarrow> exn + (nat \<times> ustring) list" where
  "preprocess_loop processed [] = Inr processed"
| "preprocess_loop processed (line0 # rest) =
     (let line = remove_comment line0
      in if strip line = [] then preprocess_loop processed rest
         else
           let indent_level = indent_loop 0 line;
               content = strip line
           in if content \<noteq> [] \<and> \<not> endswith content (ustr '':'')
                   \<and> \<not> endswith content (ustr '';'')
              then Inl (LineMustEndWithSemicolon content)
              else preprocess_loop (processed @ [(indent_level, content)]) rest)"

definition preprocess_lines :: "ustring list \<Rightarrow> exn + (nat \<times> ustring) list" where
  "preprocess_lines lines = preprocess_loop [] lines"

subsection \<open>The statement handlers\<close>

definition handle_loop :: "compiler \<Rightarrow> nat \<Rightarrow> compiler" where
  "handle_loop self indent_level =
     (let self = output_append self (ustr ''['')
      in self\<lparr>loop_stack := loop_stack self @ [indent_level]\<rparr>)"

text \<open>The loop over \<open>enumerate(string_content)\<close> of a string literal.\<close>

fun ent_string_loop :: "compiler \<Rightarrow> nat \<Rightarrow> ustring \<Rightarrow> compiler" where
  "ent_string_loop self i [] = self"
| "ent_string_loop self i (char # rest) =
     (let self = (if i > 0 then output_append self (ustr ''>'') else self);
          ascii_val = char;
          self = output_append self (ustr ''[-]'');
          self = output_append self (str_mul (ustr ''+'') ascii_val)
      in ent_string_loop self (i + 1) rest)"

definition handle_ent :: "digit_table \<Rightarrow> compiler \<Rightarrow> ustring \<Rightarrow> exn + compiler" where
  "handle_ent U self value_str0 =
     (let value_str = strip value_str0
      in if value_str = ustr ''input'' then
           Inr (output_append (output_append self (ustr ''[-]'')) (ustr '',''))
         else if startswith value_str (ustr [CHR 0x27]) \<and> endswith value_str (ustr [CHR 0x27])
                 \<and> length value_str = 3 then
           (let char = value_str ! 1;
                ascii_val = char
            in Inr (output_append (output_append self (ustr ''[-]''))
                      (str_mul (ustr ''+'') ascii_val)))
         else if startswith value_str (ustr [CHR 0x22]) \<and> endswith value_str (ustr [CHR 0x22]) then
           (let string_content = drop 1 (take (length value_str - 1) value_str)
            in Inr (ent_string_loop self 0 string_content))
         else if isdigit U value_str then
           (case int_of_str U value_str of
              None \<Rightarrow> Inl (InvalidIntLiteral value_str)
            | Some num \<Rightarrow>
                if num > 255 then Inl (ValueTooLarge num)
                else Inr (output_append (output_append self (ustr ''[-]''))
                            (str_mul (ustr ''+'') num)))
         else Inl (InvalidEntValue value_str))"

definition handle_cellout :: "compiler \<Rightarrow> compiler" where
  "handle_cellout self = output_append self (ustr ''.'')"

definition handle_shift :: "compiler \<Rightarrow> ustring \<Rightarrow> compiler" where
  "handle_shift self direction = output_append self direction"

definition handle_multi_shift ::
  "digit_table \<Rightarrow> compiler \<Rightarrow> ustring \<Rightarrow> exn + compiler" where
  "handle_multi_shift U self shift_str =
     (case (if startswith shift_str (ustr ''<<'') then Some (ustr ''<'', drop 2 shift_str)
            else if startswith shift_str (ustr ''>>'') then Some (ustr ''>'', drop 2 shift_str)
            else None) of
        None \<Rightarrow> Inl (InvalidShiftOperator shift_str)
      | Some (direction, num_str) \<Rightarrow>
          if \<not> isdigit U num_str then Inl (InvalidShiftNumber shift_str)
          else
            (case int_of_str U num_str of
               None \<Rightarrow> Inl (InvalidIntLiteral num_str)
             | Some num_shifts \<Rightarrow>
                 if num_shifts \<le> 0 then Inl (ShiftsNotPositive shift_str)
                 else Inr (output_append self (str_mul direction num_shifts))))"

definition handle_inc :: "digit_table \<Rightarrow> compiler \<Rightarrow> ustring \<Rightarrow> exn + compiler" where
  "handle_inc U self inc_str =
     (if strip inc_str = ustr ''inc'' then Inr (output_append self (ustr ''+''))
      else if startswith inc_str (ustr ''inc '') then
        (let amount_str = strip (drop 4 inc_str)
         in if \<not> isdigit U amount_str then Inl (InvalidIncAmount amount_str)
            else
              (case int_of_str U amount_str of
                 None \<Rightarrow> Inl (InvalidIntLiteral amount_str)
               | Some amount \<Rightarrow>
                   if amount \<le> 0 then Inl (IncNotPositive amount)
                   else Inr (output_append self (str_mul (ustr ''+'') amount))))
      else Inl (InvalidIncStatement inc_str))"

definition handle_dec :: "digit_table \<Rightarrow> compiler \<Rightarrow> ustring \<Rightarrow> exn + compiler" where
  "handle_dec U self dec_str =
     (if strip dec_str = ustr ''dec'' then Inr (output_append self (ustr ''-''))
      else if startswith dec_str (ustr ''dec '') then
        (let amount_str = strip (drop 4 dec_str)
         in if \<not> isdigit U amount_str then Inl (InvalidDecAmount amount_str)
            else
              (case int_of_str U amount_str of
                 None \<Rightarrow> Inl (InvalidIntLiteral amount_str)
               | Some amount \<Rightarrow>
                   if amount \<le> 0 then Inl (DecNotPositive amount)
                   else Inr (output_append self (str_mul (ustr ''-'') amount))))
      else Inl (InvalidDecStatement dec_str))"

definition handle_clr :: "compiler \<Rightarrow> compiler" where
  "handle_clr self = output_append self (ustr ''[-]'')"

subsection \<open>\<open>_process_line\<close>\<close>

text \<open>
  The first loop of \<open>_process_line\<close>: while the stack is not empty and the line is not
  indented deeper than the innermost open loop, close that loop.
\<close>

function end_loops :: "compiler \<Rightarrow> nat \<Rightarrow> compiler" where
  "end_loops self indent_level =
     (if loop_stack self \<noteq> [] \<and> indent_level \<le> last (loop_stack self) then
        end_loops
          ((output_append self (ustr '']''))\<lparr>loop_stack := butlast (loop_stack self)\<rparr>)
          indent_level
      else self)"
  by pat_completeness auto
termination
  by (relation "measure (\<lambda>(self, indent_level). length (loop_stack self))")
    (auto simp: output_append_def)

declare end_loops.simps [simp del]

definition process_line ::
  "digit_table \<Rightarrow> compiler \<Rightarrow> nat \<Rightarrow> ustring \<Rightarrow> exn + compiler" where
  "process_line U self0 indent_level content0 =
     (if content0 = [] then Inr self0
      else
        let self = end_loops self0 indent_level;
            content = (if endswith content0 (ustr '';'') then butlast content0 else content0)
        in if startswith content (ustr ''loop:'') then Inr (handle_loop self indent_level)
           else if startswith content (ustr ''ent '') then handle_ent U self (drop 4 content)
           else if content = ustr ''cellout'' then Inr (handle_cellout self)
           else if content = ustr ''<'' \<or> content = ustr ''>'' then
             Inr (handle_shift self content)
           else if startswith content (ustr ''<<'') \<or> startswith content (ustr ''>>'') then
             handle_multi_shift U self content
           else if startswith content (ustr ''inc'') then handle_inc U self content
           else if startswith content (ustr ''dec'') then handle_dec U self content
           else if content = ustr ''clr'' then Inr (handle_clr self)
           else Inl (UnknownStatement content))"

subsection \<open>\<open>compile\<close>\<close>

text \<open>
  The loop over \<open>enumerate(processed_lines, 1)\<close>: an exception of \<open>_process_line\<close> is
  raised again as a \<open>SyntaxError\<close> that names the line number.
\<close>

fun process_lines ::
  "digit_table \<Rightarrow> compiler \<Rightarrow> nat \<Rightarrow> (nat \<times> ustring) list \<Rightarrow> exn + compiler" where
  "process_lines U self line_num [] = Inr self"
| "process_lines U self line_num ((indent_level, content) # rest) =
     (case process_line U self indent_level content of
        Inl e \<Rightarrow> Inl (ErrorOnLine line_num e)
      | Inr self' \<Rightarrow> process_lines U self' (line_num + 1) rest)"

text \<open>The last loop of \<open>compile\<close>: close any remaining loops.\<close>

function close_remaining :: "compiler \<Rightarrow> compiler" where
  "close_remaining self =
     (if loop_stack self \<noteq> [] then
        close_remaining
          ((output_append self (ustr '']''))\<lparr>loop_stack := butlast (loop_stack self)\<rparr>)
      else self)"
  by pat_completeness auto
termination
  by (relation "measure (\<lambda>self. length (loop_stack self))") (auto simp: output_append_def)

declare close_remaining.simps [simp del]

definition compile :: "digit_table \<Rightarrow> ustring \<Rightarrow> exn + ustring" where
  "compile U source_code =
     (let self = \<lparr>output_chunks = [], current_indent = 0, loop_stack = []\<rparr>;
          lines = str_split source_code 10
      in case preprocess_lines lines of
           Inl e \<Rightarrow> Inl e
         | Inr processed_lines \<Rightarrow>
             (case process_lines U self 1 processed_lines of
                Inl e \<Rightarrow> Inl e
              | Inr self' \<Rightarrow> Inr (concat (output_chunks (close_remaining self')))))"

section \<open>Notions used to state and prove the properties\<close>

text \<open>
  The prefix-sum walk over a token stream: \<open>+1\<close> for a loop-open bracket, \<open>-1\<close> for a
  loop-close bracket, \<open>0\<close> for every other character. \<open>bracket_depth s\<close> is the sum over
  the whole of \<open>s\<close>.
\<close>

definition bracket_step :: "nat \<Rightarrow> int" where
  "bracket_step c =
     (if c = of_char CHR ''['' then 1 else if c = of_char CHR '']'' then - 1 else 0)"

definition bracket_depth :: "ustring \<Rightarrow> int" where
  "bracket_depth s = sum_list (map bracket_step s)"

text \<open>
  \<open>walk d s\<close>: started at depth \<open>d\<close>, the walk over \<open>s\<close> never goes below zero. It is
  the recursive form of "every prefix has a non-negative sum" that the proofs use.
\<close>

fun walk :: "int \<Rightarrow> ustring \<Rightarrow> bool" where
  "walk d [] \<longleftrightarrow> 0 \<le> d"
| "walk d (c # cs) \<longleftrightarrow> 0 \<le> d \<and> walk (d + bracket_step c) cs"

text \<open>The eight characters of the target language.\<close>

definition token_set :: "nat set" where
  "token_set = set (ustr ''><+-[].,'')"

text \<open>\<open>emit self chunks\<close>: the compiler after several \<open>self.output.append\<close> calls.\<close>

definition emit :: "compiler \<Rightarrow> ustring list \<Rightarrow> compiler" where
  "emit self chunks = self\<lparr>output_chunks := output_chunks self @ chunks\<rparr>"

text \<open>
  What a handler other than \<open>_handle_loop\<close> appends: the clear idiom, or a string
  without brackets over the other six tokens.
\<close>

definition plain_chunk :: "ustring \<Rightarrow> bool" where
  "plain_chunk s \<longleftrightarrow> s = ustr ''[-]'' \<or> set s \<subseteq> set (ustr ''><+-.,'')"

text \<open>
  The invariants of the compiler state: the output so far is a well-nested prefix whose
  depth is the number of open loops, and it consists of tokens only.
\<close>

definition balanced_state :: "compiler \<Rightarrow> bool" where
  "balanced_state self \<longleftrightarrow>
     walk 0 (concat (output_chunks self)) \<and>
     bracket_depth (concat (output_chunks self)) = int (length (loop_stack self))"

definition tokens_only :: "compiler \<Rightarrow> bool" where
  "tokens_only self \<longleftrightarrow> set (concat (output_chunks self)) \<subseteq> token_set"

text \<open>The state in which \<open>compile\<close> starts.\<close>

definition initial :: compiler where
  "initial = \<lparr>output_chunks = [], current_indent = 0, loop_stack = []\<rparr>"

text \<open>
  The states a compilation passes through, as far as the loop stack is concerned: the
  initial state, the state after each iteration of one of the two closing loops (the
  guard on the indentation is left out, so that the loop of \<open>_process_line\<close> and the
  final loop of \<open>compile\<close> are both covered), and the state after each processed line.
\<close>

inductive reach :: "digit_table \<Rightarrow> compiler \<Rightarrow> bool" for U :: digit_table where
  start: "reach U initial"
| pop: "reach U self \<Longrightarrow> loop_stack self \<noteq> [] \<Longrightarrow>
     reach U ((output_append self (ustr '']''))\<lparr>loop_stack := butlast (loop_stack self)\<rparr>)"
| line: "reach U self \<Longrightarrow> process_line U self indent_level content = Inr self' \<Longrightarrow>
     reach U self'"

text \<open>
  What \<open>_preprocess_lines\<close> makes of one raw line: its content (the line without its
  comment, stripped), whether the terminator check rejects it (the content is not empty
  and ends with neither a colon nor a semicolon), and the pair it appends otherwise.
\<close>

definition line_content :: "ustring \<Rightarrow> ustring" where
  "line_content line = strip (remove_comment line)"

definition bad_terminator :: "ustring \<Rightarrow> bool" where
  "bad_terminator line \<longleftrightarrow>
     line_content line \<noteq> [] \<and> \<not> endswith (line_content line) (ustr '':'')
     \<and> \<not> endswith (line_content line) (ustr '';'')"

definition source_line :: "ustring \<Rightarrow> nat \<times> ustring" where
  "source_line line = (indent_loop 0 (remove_comment line), line_content line)"

text \<open>
  What is known of the digit table: on the ASCII range it is the table of the ASCII
  digits (every Unicode database agrees with it there).
\<close>

definition ascii_table :: "digit_table \<Rightarrow> bool" where
  "ascii_table U \<longleftrightarrow> (\<forall>c < 128. U c = ascii_digits c)"

text \<open>
  A decimal integer literal in ASCII digits, and the number it denotes (leading zeros
  allowed).
\<close>

definition digit_string :: "ustring \<Rightarrow> bool" where
  "digit_string ds \<longleftrightarrow> ds \<noteq> [] \<and> list_all (\<lambda>c. 48 \<le> c \<and> c \<le> 57) ds"

definition digits_value :: "ustring \<Rightarrow> nat" where
  "digits_value ds = foldl (\<lambda>n c. 10 * n + (c - 48)) 0 ds"

text \<open>
  The tokens of a string literal, in the words of the specification: each character
  gives the clear idiom followed by as many increments as its code point, and one
  forward shift stands between the tokens of two adjacent characters (none before the
  first, none after the last).
\<close>

definition cell_tokens :: "nat \<Rightarrow> ustring" where
  "cell_tokens c = ustr ''[-]'' @ replicate c (of_char CHR ''+'')"

fun string_literal_tokens :: "ustring \<Rightarrow> ustring" where
  "string_literal_tokens [] = []"
| "string_literal_tokens (c # cs) =
     cell_tokens c @ concat (map (\<lambda>d. ustr ''>'' @ cell_tokens d) cs)"

section \<open>Auxiliary facts\<close>

subsection \<open>Output chunks, brackets and the two closing loops\<close>

lemma str_mul_single: "str_mul [c] n = replicate n c"
  by (induction n) (simp_all add: str_mul_def)

text \<open>Several appended chunks at once.\<close>

lemma emit_Nil [simp]: "emit self [] = self"
  by (simp add: emit_def)

lemma emit_emit [simp]: "emit (emit self a) b = emit self (a @ b)"
  by (simp add: emit_def)

lemma output_append_emit: "output_append self s = emit self [s]"
  by (simp add: emit_def output_append_def)

lemma emit_fields [simp]:
  "output_chunks (emit self chunks) = output_chunks self @ chunks"
  "loop_stack (emit self chunks) = loop_stack self"
  by (simp_all add: emit_def)

lemma plain_chunk_simps [simp]:
  "plain_chunk (ustr ''[-]'')" "plain_chunk (ustr '','')" "plain_chunk (ustr ''.'')"
  "plain_chunk (ustr ''+'')" "plain_chunk (ustr ''-'')" "plain_chunk (ustr ''<'')"
  "plain_chunk (ustr ''>'')"
  "plain_chunk (str_mul (ustr ''+'') n)" "plain_chunk (str_mul (ustr ''-'') n)"
  "plain_chunk (str_mul (ustr ''<'') n)" "plain_chunk (str_mul (ustr ''>'') n)"
  by (auto simp: plain_chunk_def ustr_def str_mul_def)

text \<open>
  Every handler but \<open>_handle_loop\<close> appends plain chunks and leaves the loop stack as
  it is; so a processed line is the closing loop followed by either.
\<close>

lemma ent_string_loop_shape:
  "\<exists>chunks. list_all plain_chunk chunks \<and> ent_string_loop self i s = emit self chunks"
proof (induction s arbitrary: self i)
  case Nil
  show ?case by (rule exI[of _ "[]"]) simp
next
  case (Cons c s)
  let ?pre = "(if i > 0 then [ustr ''>''] else []) @ [ustr ''[-]'', str_mul (ustr ''+'') c]"
  from Cons.IH[of "emit self ?pre" "i + 1"] obtain chunks where
    c: "list_all plain_chunk chunks"
    and e: "ent_string_loop (emit self ?pre) (i + 1) s = emit (emit self ?pre) chunks"
    by blast
  have "ent_string_loop self i (c # s) = emit self (?pre @ chunks)"
    using e by (cases "0 < i") (simp_all add: output_append_emit Let_def)
  moreover have "list_all plain_chunk (?pre @ chunks)" using c by simp
  ultimately show ?case by blast
qed

lemma handle_ent_shape:
  assumes "handle_ent U self v = Inr self'"
  shows "\<exists>chunks. list_all plain_chunk chunks \<and> self' = emit self chunks"
proof -
  let ?v = "strip v"
  consider (inp) "?v = ustr ''input''"
    | (chr) "?v \<noteq> ustr ''input''" "startswith ?v (ustr [CHR 0x27]) \<and> endswith ?v (ustr [CHR 0x27]) \<and> length ?v = 3"
    | (str) "?v \<noteq> ustr ''input''" "\<not> (startswith ?v (ustr [CHR 0x27]) \<and> endswith ?v (ustr [CHR 0x27]) \<and> length ?v = 3)"
        "startswith ?v (ustr [CHR 0x22]) \<and> endswith ?v (ustr [CHR 0x22])"
    | (num) "?v \<noteq> ustr ''input''" "\<not> (startswith ?v (ustr [CHR 0x27]) \<and> endswith ?v (ustr [CHR 0x27]) \<and> length ?v = 3)"
        "\<not> (startswith ?v (ustr [CHR 0x22]) \<and> endswith ?v (ustr [CHR 0x22]))"
    by blast
  then show ?thesis
  proof cases
    case inp
    with assms have "self' = emit self [ustr ''[-]'', ustr '','']"
      by (simp add: handle_ent_def output_append_emit)
    then show ?thesis by (intro exI[of _ "[ustr ''[-]'', ustr '','']"]) simp
  next
    case chr
    with assms have "self' = emit self [ustr ''[-]'', str_mul (ustr ''+'') (?v ! 1)]"
      by (simp add: handle_ent_def output_append_emit)
    then show ?thesis by (intro exI[of _ "[ustr ''[-]'', str_mul (ustr ''+'') (?v ! 1)]"]) simp
  next
    case str
    with assms have "self' = ent_string_loop self 0 (drop 1 (take (length ?v - 1) ?v))"
      by (simp add: handle_ent_def Let_def)
    then show ?thesis using ent_string_loop_shape by simp
  next
    case num
    with assms have "\<exists>n. self' = emit self [ustr ''[-]'', str_mul (ustr ''+'') n]"
      by (auto simp: handle_ent_def output_append_emit Let_def split: if_splits option.splits)
    then obtain n where "self' = emit self [ustr ''[-]'', str_mul (ustr ''+'') n]" ..
    then show ?thesis by (intro exI[of _ "[ustr ''[-]'', str_mul (ustr ''+'') n]"]) simp
  qed
qed

lemma handle_multi_shift_shape:
  assumes "handle_multi_shift U self v = Inr self'"
  shows "\<exists>chunks. list_all plain_chunk chunks \<and> self' = emit self chunks"
proof -
  from assms obtain d n where "d = ustr ''<'' \<or> d = ustr ''>''" "self' = emit self [str_mul d n]"
    by (auto simp: handle_multi_shift_def output_append_emit split: if_splits option.splits)
  then show ?thesis by (intro exI[of _ "[str_mul d n]"]) auto
qed

lemma handle_inc_shape:
  assumes "handle_inc U self v = Inr self'"
  shows "\<exists>chunks. list_all plain_chunk chunks \<and> self' = emit self chunks"
proof -
  from assms have "self' = emit self [ustr ''+''] \<or> (\<exists>n. self' = emit self [str_mul (ustr ''+'') n])"
    by (auto simp: handle_inc_def output_append_emit Let_def split: if_splits option.splits)
  then show ?thesis
  proof
    assume "self' = emit self [ustr ''+'']"
    then show ?thesis by (intro exI[of _ "[ustr ''+'']"]) simp
  next
    assume "\<exists>n. self' = emit self [str_mul (ustr ''+'') n]"
    then obtain n where "self' = emit self [str_mul (ustr ''+'') n]" ..
    then show ?thesis by (intro exI[of _ "[str_mul (ustr ''+'') n]"]) simp
  qed
qed

lemma handle_dec_shape:
  assumes "handle_dec U self v = Inr self'"
  shows "\<exists>chunks. list_all plain_chunk chunks \<and> self' = emit self chunks"
proof -
  from assms have "self' = emit self [ustr ''-''] \<or> (\<exists>n. self' = emit self [str_mul (ustr ''-'') n])"
    by (auto simp: handle_dec_def output_append_emit Let_def split: if_splits option.splits)
  then show ?thesis
  proof
    assume "self' = emit self [ustr ''-'']"
    then show ?thesis by (intro exI[of _ "[ustr ''-'']"]) simp
  next
    assume "\<exists>n. self' = emit self [str_mul (ustr ''-'') n]"
    then obtain n where "self' = emit self [str_mul (ustr ''-'') n]" ..
    then show ?thesis by (intro exI[of _ "[str_mul (ustr ''-'') n]"]) simp
  qed
qed

lemma process_line_shape:
  assumes "process_line U self i c = Inr self'" and "c \<noteq> []"
  shows "self' = handle_loop (end_loops self i) i
       \<or> (\<exists>chunks. list_all plain_chunk chunks \<and> self' = emit (end_loops self i) chunks)"
proof -
  let ?s = "end_loops self i"
  let ?c = "if endswith c (ustr '';'') then butlast c else c"
  have one: "\<exists>chunks. list_all plain_chunk chunks \<and> emit ?s [x] = emit ?s chunks" if "plain_chunk x" for x
    using that by (intro exI[of _ "[x]"]) simp
  from assms have
    "self' = handle_loop ?s i \<or> handle_ent U ?s (drop 4 ?c) = Inr self'
     \<or> self' = emit ?s [ustr ''.''] \<or> self' = emit ?s [ustr ''<''] \<or> self' = emit ?s [ustr ''>'']
     \<or> handle_multi_shift U ?s ?c = Inr self' \<or> handle_inc U ?s ?c = Inr self'
     \<or> handle_dec U ?s ?c = Inr self' \<or> self' = emit ?s [ustr ''[-]'']"
    unfolding process_line_def Let_def handle_cellout_def handle_shift_def handle_clr_def output_append_emit
    by (auto split: if_splits)
  then show ?thesis
    using handle_ent_shape handle_multi_shift_shape handle_inc_shape handle_dec_shape one
    by (elim disjE) (simp_all; blast)+
qed

text \<open>The bracket walk, chunk by chunk.\<close>

lemma bracket_depth_simps [simp]:
  "bracket_depth [] = 0"
  "bracket_depth (c # cs) = bracket_step c + bracket_depth cs"
  "bracket_depth (a @ b) = bracket_depth a + bracket_depth b"
  by (simp_all add: bracket_depth_def)

lemma walk_nonneg: "walk d s \<Longrightarrow> 0 \<le> d"
  by (cases s) simp_all

lemma walk_append: "walk d (a @ b) \<longleftrightarrow> walk d a \<and> walk (d + bracket_depth a) b"
  by (induction a arbitrary: d) (auto simp: add.assoc dest: walk_nonneg)

lemma walk_prefixes: "walk d s \<Longrightarrow> k \<le> length s \<Longrightarrow> 0 \<le> d + bracket_depth (take k s)"
proof (induction s arbitrary: d k)
  case Nil
  then show ?case by simp
next
  case (Cons c s)
  show ?case
  proof (cases k)
    case 0
    with Cons.prems show ?thesis by simp
  next
    case (Suc j)
    with Cons.prems have "walk (d + bracket_step c) s" "j \<le> length s" by simp_all
    from Cons.IH[OF this] Suc show ?thesis by (simp add: add.assoc)
  qed
qed

lemma bracket_depth_count:
  "bracket_depth s = int (count_list s (of_char CHR ''['')) - int (count_list s (of_char CHR '']''))"
  by (induction s) (auto simp: bracket_step_def)

lemma no_bracket_depth: "set s \<subseteq> set (ustr ''><+-.,'') \<Longrightarrow> bracket_depth s = 0"
  by (induction s) (auto simp: bracket_step_def ustr_def)

lemma no_bracket_walk: "set s \<subseteq> set (ustr ''><+-.,'') \<Longrightarrow> 0 \<le> d \<Longrightarrow> walk d s"
  by (induction s arbitrary: d) (auto simp: bracket_step_def ustr_def)

lemma plain_chunk_depth: "plain_chunk c \<Longrightarrow> bracket_depth c = 0"
  unfolding plain_chunk_def
proof (elim disjE)
  assume "c = ustr ''[-]''"
  then show ?thesis by (simp add: ustr_def bracket_step_def)
qed (rule no_bracket_depth)

lemma plain_chunk_walk: "plain_chunk c \<Longrightarrow> 0 \<le> d \<Longrightarrow> walk d c"
  unfolding plain_chunk_def
proof (elim disjE)
  assume "c = ustr ''[-]''" "0 \<le> d"
  then show ?thesis by (simp add: ustr_def bracket_step_def)
qed (rule no_bracket_walk)

lemma plain_chunk_tokens: "plain_chunk c \<Longrightarrow> set c \<subseteq> token_set"
  by (auto simp: plain_chunk_def token_set_def ustr_def)

lemma plain_chunks_depth: "list_all plain_chunk chunks \<Longrightarrow> bracket_depth (concat chunks) = 0"
  by (induction chunks) (simp_all add: plain_chunk_depth)

lemma plain_chunks_walk: "list_all plain_chunk chunks \<Longrightarrow> 0 \<le> d \<Longrightarrow> walk d (concat chunks)"
  by (induction chunks) (simp_all add: walk_append plain_chunk_walk plain_chunk_depth)

lemma plain_chunks_tokens: "list_all plain_chunk chunks \<Longrightarrow> set (concat chunks) \<subseteq> token_set"
  by (induction chunks) (use plain_chunk_tokens in auto)

text \<open>
  The two closing loops: each appends closing brackets, as many as it takes frames
  off the stack.
\<close>

lemma closers_concat: "concat (replicate m (ustr '']'')) = replicate m 93"
  by (induction m) (simp_all add: ustr_def)

lemma closers_depth: "bracket_depth (replicate m 93) = - int m"
  by (induction m) (simp_all add: bracket_step_def)

lemma closers_walk: "int m \<le> d \<Longrightarrow> walk d (replicate m 93)"
  by (induction m arbitrary: d) (simp_all add: bracket_step_def)

lemma end_loops_emit:
  "\<exists>m \<le> length (loop_stack self).
     end_loops self i =
       (emit self (replicate m (ustr '']'')))\<lparr>loop_stack := take (length (loop_stack self) - m) (loop_stack self)\<rparr>"
proof (induction self i rule: end_loops.induct)
  case (1 self i)
  show ?case
  proof (cases "loop_stack self \<noteq> [] \<and> i \<le> last (loop_stack self)")
    case True
    let ?s = "(output_append self (ustr '']''))\<lparr>loop_stack := butlast (loop_stack self)\<rparr>"
    from "1.IH"[OF True] obtain m where m: "m \<le> length (loop_stack ?s)"
      and eq: "end_loops ?s i = (emit ?s (replicate m (ustr '']'')))\<lparr>loop_stack := take (length (loop_stack ?s) - m) (loop_stack ?s)\<rparr>"
      by blast
    have "end_loops self i = end_loops ?s i"
      using True by (subst end_loops.simps) simp
    also note eq
    finally have e: "end_loops self i = (emit ?s (replicate m (ustr '']'')))\<lparr>loop_stack := take (length (loop_stack ?s) - m) (loop_stack ?s)\<rparr>" .
    from True have ne: "loop_stack self \<noteq> []" by simp
    have "Suc m \<le> length (loop_stack self)" using m ne
      by (cases "loop_stack self" rule: rev_cases) (simp_all add: output_append_def)
    moreover have "end_loops self i = (emit self (replicate (Suc m) (ustr '']'')))\<lparr>loop_stack := take (length (loop_stack self) - Suc m) (loop_stack self)\<rparr>"
      unfolding e using ne
      by (cases "loop_stack self" rule: rev_cases)
         (simp_all add: output_append_def emit_def replicate_append_same butlast_conv_take)
    ultimately show ?thesis by blast
  next
    case False
    then have "end_loops self i = self" by (subst end_loops.simps) auto
    then show ?thesis by (intro exI[of _ 0]) simp
  qed
qed

lemma close_remaining_emit:
  "close_remaining self =
     (emit self (replicate (length (loop_stack self)) (ustr '']'')))\<lparr>loop_stack := []\<rparr>"
proof (induction self rule: close_remaining.induct)
  case (1 self)
  show ?case
  proof (cases "loop_stack self \<noteq> []")
    case True
    let ?s = "(output_append self (ustr '']''))\<lparr>loop_stack := butlast (loop_stack self)\<rparr>"
    have "close_remaining self = close_remaining ?s"
      using True by (subst close_remaining.simps) simp
    also have "\<dots> = (emit ?s (replicate (length (loop_stack ?s)) (ustr '']'')))\<lparr>loop_stack := []\<rparr>"
      using "1.IH"[OF True] .
    also have "\<dots> = (emit self (replicate (length (loop_stack self)) (ustr '']'')))\<lparr>loop_stack := []\<rparr>"
      using True
      by (cases "loop_stack self" rule: rev_cases)
         (simp_all add: output_append_def emit_def replicate_append_same)
    finally show ?thesis .
  next
    case False
    then show ?thesis by (subst close_remaining.simps) (simp add: emit_def)
  qed
qed

text \<open>What every successfully processed line keeps, the loop over the lines keeps.\<close>

lemma process_lines_invariant:
  assumes step: "\<And>self i c self'. P self \<Longrightarrow> process_line U self i c = Inr self' \<Longrightarrow> P self'"
    and "P self" and "process_lines U self n ls = Inr self'"
  shows "P self'"
  using assms(2,3)
proof (induction ls arbitrary: self n)
  case Nil
  then show ?case by simp
next
  case (Cons l ls)
  obtain i c where l: "l = (i, c)" by (cases l)
  from Cons.prems(2) l obtain s1 where
    s1: "process_line U self i c = Inr s1" and rest: "process_lines U s1 (n + 1) ls = Inr self'"
    by (auto split: sum.splits)
  from step[OF Cons.prems(1) s1] have "P s1" .
  from Cons.IH[OF this rest] show ?case .
qed

text \<open>The output is a well-nested prefix, as deep as the loop stack is high.\<close>

lemma balanced_emit_plain:
  "balanced_state self \<Longrightarrow> list_all plain_chunk chunks \<Longrightarrow> balanced_state (emit self chunks)"
  by (simp add: balanced_state_def walk_append plain_chunks_depth plain_chunks_walk)

lemma balanced_end_loops:
  assumes "balanced_state self"
  shows "balanced_state (end_loops self i)"
proof -
  from end_loops_emit[of self i] obtain m where m: "m \<le> length (loop_stack self)"
    and e: "end_loops self i =
       (emit self (replicate m (ustr '']'')))\<lparr>loop_stack := take (length (loop_stack self) - m) (loop_stack self)\<rparr>"
    by blast
  from assms m show ?thesis
    unfolding e by (simp add: balanced_state_def walk_append closers_concat closers_depth closers_walk)
qed

lemma balanced_handle_loop:
  "balanced_state self \<Longrightarrow> balanced_state (handle_loop self i)"
  by (simp add: balanced_state_def handle_loop_def output_append_def Let_def walk_append
      ustr_def bracket_step_def)

lemma balanced_process_line:
  assumes "balanced_state self" and "process_line U self i c = Inr self'"
  shows "balanced_state self'"
proof (cases "c = []")
  case True
  with assms show ?thesis by (simp add: process_line_def)
next
  case False
  from process_line_shape[OF assms(2) False] balanced_end_loops[OF assms(1), of i]
  show ?thesis by (auto intro: balanced_handle_loop balanced_emit_plain)
qed

lemma balanced_close_remaining:
  assumes "balanced_state self"
  shows "walk 0 (concat (output_chunks (close_remaining self)))
       \<and> bracket_depth (concat (output_chunks (close_remaining self))) = 0"
  using assms unfolding close_remaining_emit
  by (simp add: balanced_state_def walk_append closers_concat closers_depth closers_walk)

lemma compile_Inr:
  assumes "compile U src = Inr out"
  obtains ls self where "preprocess_lines (str_split src 10) = Inr ls"
    and "process_lines U initial 1 ls = Inr self"
    and "out = concat (output_chunks (close_remaining self))"
  using assms by (auto simp: compile_def initial_def Let_def split: sum.splits)

text \<open>The output consists of tokens.\<close>

lemma tokens_emit_plain:
  "tokens_only self \<Longrightarrow> list_all plain_chunk chunks \<Longrightarrow> tokens_only (emit self chunks)"
  using plain_chunks_tokens by (simp add: tokens_only_def)

lemma tokens_closers:
  "tokens_only self \<Longrightarrow> tokens_only ((emit self (replicate m (ustr '']'')))\<lparr>loop_stack := st\<rparr>)"
  by (auto simp: tokens_only_def token_set_def ustr_def)

lemma tokens_end_loops: "tokens_only self \<Longrightarrow> tokens_only (end_loops self i)"
  using end_loops_emit[of self i] tokens_closers by auto

lemma tokens_handle_loop: "tokens_only self \<Longrightarrow> tokens_only (handle_loop self i)"
  by (auto simp: tokens_only_def handle_loop_def output_append_def Let_def token_set_def ustr_def)

lemma tokens_process_line:
  assumes "tokens_only self" and "process_line U self i c = Inr self'"
  shows "tokens_only self'"
proof (cases "c = []")
  case True
  with assms show ?thesis by (simp add: process_line_def)
next
  case False
  from process_line_shape[OF assms(2) False] tokens_end_loops[OF assms(1), of i]
  show ?thesis by (auto intro: tokens_handle_loop tokens_emit_plain)
qed

text \<open>
  One iteration of each closing loop, and the rules that evaluate the compiler on a
  concrete program.
\<close>

lemma end_loops_pop:
  "loop_stack self \<noteq> [] \<Longrightarrow> i \<le> last (loop_stack self) \<Longrightarrow>
   end_loops self i =
     end_loops ((output_append self (ustr '']''))\<lparr>loop_stack := butlast (loop_stack self)\<rparr>) i"
  by (subst end_loops.simps) simp

lemma end_loops_stop_empty: "loop_stack self = [] \<Longrightarrow> end_loops self i = self"
  by (subst end_loops.simps) simp

lemma end_loops_stop_deeper: "last (loop_stack self) < i \<Longrightarrow> end_loops self i = self"
  by (subst end_loops.simps) simp

lemma close_remaining_pop:
  "loop_stack self \<noteq> [] \<Longrightarrow>
   close_remaining self =
     close_remaining ((output_append self (ustr '']''))\<lparr>loop_stack := butlast (loop_stack self)\<rparr>)"
  by (subst close_remaining.simps) simp

lemma close_remaining_stop: "loop_stack self = [] \<Longrightarrow> close_remaining self = self"
  by (subst close_remaining.simps) simp

lemma replicate_small: "replicate 2 x = [x, x]" "replicate 3 x = [x, x, x]"
  by (simp_all add: numeral_2_eq_2 numeral_3_eq_3)

lemmas compile_eval = compile_def ustr_def preprocess_lines_def remove_comment_def strip_def isspace_def endswith_def
  suffix_to_prefix startswith_def process_line_def
  end_loops_pop end_loops_stop_empty end_loops_stop_deeper close_remaining_pop close_remaining_stop
  handle_loop_def handle_ent_def handle_cellout_def handle_shift_def handle_multi_shift_def
  handle_inc_def handle_dec_def handle_clr_def output_append_def str_mul_single isdigit_def
  int_of_str_def ascii_digits_def initial_def Let_def

subsection \<open>The loop stack\<close>

text \<open>The states inside the two closing loops and between the lines are reachable.\<close>

lemma reach_end_loops: "reach U self \<Longrightarrow> reach U (end_loops self i)"
proof (induction self i rule: end_loops.induct)
  case (1 self i)
  show ?case
  proof (cases "loop_stack self \<noteq> [] \<and> i \<le> last (loop_stack self)")
    case True
    then have "reach U ((output_append self (ustr '']''))\<lparr>loop_stack := butlast (loop_stack self)\<rparr>)"
      using "1.prems" by (intro reach.pop) simp_all
    from "1.IH"[OF True this] True show ?thesis by (simp add: end_loops_pop)
  next
    case False
    then have "end_loops self i = self" by (subst end_loops.simps) auto
    with "1.prems" show ?thesis by simp
  qed
qed

lemma reach_close_remaining: "reach U self \<Longrightarrow> reach U (close_remaining self)"
proof (induction self rule: close_remaining.induct)
  case (1 self)
  show ?case
  proof (cases "loop_stack self \<noteq> []")
    case True
    then have "reach U ((output_append self (ustr '']''))\<lparr>loop_stack := butlast (loop_stack self)\<rparr>)"
      using "1.prems" by (intro reach.pop) simp_all
    from "1.IH"[OF True this] True show ?thesis by (simp add: close_remaining_pop)
  next
    case False
    with "1.prems" show ?thesis by (simp add: close_remaining_stop)
  qed
qed

lemma reach_process_lines:
  "reach U self \<Longrightarrow> process_lines U self n ls = Inr self' \<Longrightarrow> reach U self'"
  by (rule process_lines_invariant[where P = "reach U"]) (auto intro: reach.line)

text \<open>
  On a strictly increasing stack, the closing loop of a line leaves exactly the frames
  that are strictly shallower than the line.
\<close>

lemma sorted_takeWhile_less:
  assumes "sorted_wrt (<) (xs :: nat list)"
  shows "sorted_wrt (<) (takeWhile (\<lambda>x. x < i) xs @ [i])"
proof -
  have "sorted_wrt (<) (takeWhile (\<lambda>x. x < i) xs @ dropWhile (\<lambda>x. x < i) xs)"
    using assms by simp
  then have "sorted_wrt (<) (takeWhile (\<lambda>x. x < i) xs)"
    unfolding sorted_wrt_append by blast
  moreover have "\<forall>x \<in> set (takeWhile (\<lambda>x. x < i) xs). x < i"
    by (auto dest: set_takeWhileD)
  ultimately show ?thesis by (simp add: sorted_wrt_append)
qed

lemma end_loops_takeWhile:
  "sorted_wrt (<) (loop_stack self) \<Longrightarrow>
   loop_stack (end_loops self i) = takeWhile (\<lambda>x. x < i) (loop_stack self)"
proof (induction self i rule: end_loops.induct)
  case (1 self i)
  show ?case
  proof (cases "loop_stack self \<noteq> [] \<and> i \<le> last (loop_stack self)")
    case True
    then obtain ys y where st: "loop_stack self = ys @ [y]" and y: "i \<le> y"
      by (cases "loop_stack self" rule: rev_cases) auto
    let ?s = "(output_append self (ustr '']''))\<lparr>loop_stack := butlast (loop_stack self)\<rparr>"
    from "1.prems" st have "sorted_wrt (<) (loop_stack ?s)"
      by (simp add: sorted_wrt_append)
    from "1.IH"[OF True this] have "loop_stack (end_loops ?s i) = takeWhile (\<lambda>x. x < i) ys"
      using st by simp
    moreover have "takeWhile (\<lambda>x. x < i) (ys @ [y]) = takeWhile (\<lambda>x. x < i) ys"
    proof (cases "\<forall>x \<in> set ys. x < i")
      case True
      then have tw: "takeWhile (\<lambda>x. x < i) ys = ys" by (simp add: takeWhile_eq_all_conv)
      from True y show ?thesis by (simp add: takeWhile_append tw)
    next
      case False
      then show ?thesis by (auto simp: takeWhile_append)
    qed
    ultimately show ?thesis using True st by (simp add: end_loops_pop)
  next
    case False
    then have e: "end_loops self i = self" by (subst end_loops.simps) auto
    have "\<forall>x \<in> set (loop_stack self). x < i"
    proof (cases "loop_stack self" rule: rev_cases)
      case Nil
      then show ?thesis by simp
    next
      case (snoc ys y)
      with False have "y < i" by simp
      moreover from "1.prems" snoc have "\<forall>x \<in> set ys. x < y" by (simp add: sorted_wrt_append)
      ultimately show ?thesis using snoc by auto
    qed
    then have "takeWhile (\<lambda>x. x < i) (loop_stack self) = loop_stack self"
      by (simp add: takeWhile_eq_all_conv)
    then show ?thesis unfolding e by (rule sym)
  qed
qed

lemma sorted_process_line:
  assumes "sorted_wrt (<) (loop_stack self)" and "process_line U self i c = Inr self'"
  shows "sorted_wrt (<) (loop_stack self')"
proof (cases "c = []")
  case True
  with assms show ?thesis by (simp add: process_line_def)
next
  case False
  have s: "sorted_wrt (<) (takeWhile (\<lambda>x. x < i) (loop_stack self) @ [i])"
    using assms(1) by (rule sorted_takeWhile_less)
  then have s': "sorted_wrt (<) (takeWhile (\<lambda>x. x < i) (loop_stack self))"
    by (simp add: sorted_wrt_append)
  from process_line_shape[OF assms(2) False] show ?thesis
  proof
    assume "self' = handle_loop (end_loops self i) i"
    then show ?thesis
      using s by (simp add: handle_loop_def output_append_def end_loops_takeWhile[OF assms(1)])
  next
    assume "\<exists>chunks. list_all plain_chunk chunks \<and> self' = emit (end_loops self i) chunks"
    then show ?thesis
      using s' by (auto simp: end_loops_takeWhile[OF assms(1)])
  qed
qed

lemma reach_sorted: "reach U self \<Longrightarrow> sorted_wrt (<) (loop_stack self)"
proof (induction rule: reach.induct)
  case start
  show ?case by (simp add: initial_def)
next
  case (pop self)
  then obtain ys y where "loop_stack self = ys @ [y]"
    by (cases "loop_stack self" rule: rev_cases) auto
  with pop.IH show ?case by (simp add: sorted_wrt_append output_append_def)
next
  case (line self indent_level content self')
  then show ?case by (blast intro: sorted_process_line)
qed

lemma same_indent_loop:
  assumes "sorted_wrt (<) (loop_stack self)" and "loop_stack self = st @ [i]"
  shows "process_line U self i (ustr ''loop:'') =
     Inr (self\<lparr>output_chunks := output_chunks self @ [ustr '']'', ustr ''[''],
               loop_stack := st @ [i]\<rparr>)"
proof -
  let ?s = "(output_append self (ustr '']''))\<lparr>loop_stack := butlast (loop_stack self)\<rparr>"
  from assms have lt: "\<forall>x \<in> set st. x < i" by (simp add: sorted_wrt_append)
  have "end_loops self i = end_loops ?s i"
    using assms(2) by (simp add: end_loops_pop)
  also have "\<dots> = ?s"
  proof (cases st rule: rev_cases)
    case Nil
    with assms(2) show ?thesis by (simp add: end_loops_stop_empty)
  next
    case (snoc zs z)
    with lt have "last (loop_stack ?s) < i"
      using assms(2) by (simp add: butlast_append)
    then show ?thesis by (rule end_loops_stop_deeper)
  qed
  finally have e: "end_loops self i = ?s" .
  show ?thesis
    unfolding process_line_def e
    using assms(2) by (simp add: ustr_def startswith_def endswith_def suffix_to_prefix
        handle_loop_def output_append_def)
qed

subsection \<open>Preprocessing and the first malformed line\<close>

text \<open>\<open>_preprocess_lines\<close> in terms of \<open>line_content\<close> and \<open>bad_terminator\<close>.\<close>

lemma preprocess_loop_Cons:
  "preprocess_loop processed (line # rest) =
     (if line_content line = [] then preprocess_loop processed rest
      else if bad_terminator line then Inl (LineMustEndWithSemicolon (line_content line))
      else preprocess_loop (processed @ [source_line line]) rest)"
  by (simp add: line_content_def bad_terminator_def source_line_def Let_def)

lemma preprocess_loop_first_bad:
  assumes "k < length lines" and "bad_terminator (lines ! k)"
    and "\<forall>j < k. \<not> bad_terminator (lines ! j)"
  shows "preprocess_loop processed lines = Inl (LineMustEndWithSemicolon (line_content (lines ! k)))"
  using assms
proof (induction lines arbitrary: processed k)
  case Nil
  then show ?case by simp
next
  case (Cons line rest)
  show ?case
  proof (cases k)
    case 0
    with Cons.prems show ?thesis
      by (simp add: preprocess_loop_Cons bad_terminator_def del: preprocess_loop.simps)
  next
    case (Suc k')
    with Cons.prems have ok: "\<not> bad_terminator line" by auto
    from Suc Cons.prems have "k' < length rest" "bad_terminator (rest ! k')"
      "\<forall>j < k'. \<not> bad_terminator (rest ! j)" by auto
    from Cons.IH[OF this] ok Suc show ?thesis
      by (simp add: preprocess_loop_Cons del: preprocess_loop.simps)
  qed
qed

lemma first_bad_exists:
  assumes "k < length lines" and "bad_terminator (lines ! k)"
  shows "\<exists>j \<le> k. bad_terminator (lines ! j) \<and> (\<forall>j' < j. \<not> bad_terminator (lines ! j'))"
proof -
  let ?j = "LEAST j. bad_terminator (lines ! j)"
  from assms(2) have "bad_terminator (lines ! ?j)" by (rule LeastI)
  moreover from assms(2) have "?j \<le> k" by (rule Least_le)
  moreover have "\<forall>j' < ?j. \<not> bad_terminator (lines ! j')"
    using not_less_Least by blast
  ultimately show ?thesis by blast
qed

subsection \<open>Literals, amounts and programs of one line\<close>

text \<open>Stripping a string with no white space at its ends.\<close>

lemma strip_id:
  assumes "s \<noteq> []" "\<not> isspace (hd s)" "\<not> isspace (last s)"
  shows "strip s = s"
proof -
  from assms(1,2) have a: "dropWhile isspace s = s"
    by (cases s) simp_all
  from assms(1,3) have b: "dropWhile isspace (rev s) = rev s"
    by (cases s rule: rev_cases) simp_all
  show ?thesis by (simp add: strip_def a b)
qed

text \<open>Digit strings under a table that is right on the ASCII range.\<close>

lemma ascii_table_digit: "ascii_table U \<Longrightarrow> 48 \<le> c \<Longrightarrow> c \<le> 57 \<Longrightarrow> U c = Decimal (c - 48)"
  by (simp add: ascii_table_def ascii_digits_def)

lemma ascii_table_other: "ascii_table U \<Longrightarrow> c < 48 \<Longrightarrow> U c = NoDigit"
  by (simp add: ascii_table_def ascii_digits_def)

lemma int_digits_ascii:
  "ascii_table U \<Longrightarrow> list_all (\<lambda>c. 48 \<le> c \<and> c \<le> 57) ds \<Longrightarrow>
   int_digits U acc ds = Some (foldl (\<lambda>n c. 10 * n + (c - 48)) acc ds)"
  by (induction ds arbitrary: acc) (simp_all add: ascii_table_digit)

lemma int_of_str_ascii:
  "ascii_table U \<Longrightarrow> digit_string ds \<Longrightarrow> int_of_str U ds = Some (digits_value ds)"
  by (simp add: int_of_str_def digit_string_def digits_value_def int_digits_ascii)

lemma isdigit_ascii: "ascii_table U \<Longrightarrow> digit_string ds \<Longrightarrow> isdigit U ds"
  unfolding isdigit_def digit_string_def
  by (auto simp: list_all_iff ascii_table_digit)

lemma digit_string_ends:
  assumes "digit_string ds"
  shows "48 \<le> hd ds \<and> hd ds \<le> 57 \<and> 48 \<le> last ds \<and> last ds \<le> 57"
proof -
  from assms have "ds \<noteq> []" and "\<forall>c \<in> set ds. 48 \<le> c \<and> c \<le> 57"
    by (simp_all add: digit_string_def list_all_iff)
  moreover from this have "hd ds \<in> set ds" "last ds \<in> set ds" by simp_all
  ultimately show ?thesis by blast
qed

lemma strip_digit_string: "digit_string ds \<Longrightarrow> strip ds = ds"
  using digit_string_ends[of ds]
  by (intro strip_id) (auto simp: digit_string_def isspace_def)

lemma digit_string_no_slash: "digit_string ds \<Longrightarrow> 47 \<notin> set ds \<and> 10 \<notin> set ds"
  by (auto simp: digit_string_def list_all_iff)

lemma handle_ent_digits:
  assumes "ascii_table U" and "digit_string ds"
  shows "handle_ent U self ds =
     (if digits_value ds > 255 then Inl (ValueTooLarge (digits_value ds))
      else Inr (emit self [ustr ''[-]'', str_mul (ustr ''+'') (digits_value ds)]))"
proof -
  from assms(2) obtain d rest where ds: "ds = d # rest" and d: "48 \<le> d" "d \<le> 57"
    by (cases ds) (auto simp: digit_string_def)
  have "ds \<noteq> ustr ''input''" using ds d by (auto simp: ustr_def)
  moreover have "\<not> startswith ds (ustr [CHR 0x27])" "\<not> startswith ds (ustr [CHR 0x22])"
    using ds d by (auto simp: ustr_def startswith_def)
  ultimately show ?thesis
    using assms
    by (simp add: handle_ent_def strip_digit_string isdigit_ascii int_of_str_ascii
        output_append_emit)
qed

text \<open>
  A program of one statement: a line without line feed and slash that starts at the
  left margin.
\<close>

lemma str_index_no_slash: "47 \<notin> set s \<Longrightarrow> str_index s (ustr ''//'') = None"
  by (induction s) (auto simp: ustr_def)

lemma str_split_no_newline: "sep \<notin> set s \<Longrightarrow> str_split s sep = [s]"
  by (induction s) auto

lemma indent_loop_no_space: "s \<noteq> [] \<Longrightarrow> \<not> isspace (hd s) \<Longrightarrow> indent_loop n s = n"
  by (cases s) (auto simp: isspace_def)

lemma compile_single_line:
  assumes "10 \<notin> set s" and "47 \<notin> set s" and "\<not> isspace (hd s)"
  shows "compile U (s @ ustr '';'') =
     (case process_line U initial 0 (s @ ustr '';'') of
        Inl e \<Rightarrow> Inl (ErrorOnLine 1 e)
      | Inr self' \<Rightarrow> Inr (concat (output_chunks (close_remaining self'))))"
proof -
  let ?l = "s @ ustr '';''"
  have nl: "10 \<notin> set ?l" and ns: "47 \<notin> set ?l" using assms by (simp_all add: ustr_def)
  have hd: "\<not> isspace (hd ?l)" using assms(3) by (cases s) (simp_all add: ustr_def isspace_def)
  have last: "\<not> isspace (last ?l)" by (simp add: ustr_def isspace_def)
  have ne: "?l \<noteq> []" by (simp add: ustr_def)
  have rc: "remove_comment ?l = ?l"
    using str_index_no_slash[OF ns] by (simp add: remove_comment_def)
  have st: "strip ?l = ?l" using ne hd last by (rule strip_id)
  have ind: "indent_loop 0 ?l = 0" using ne hd by (rule indent_loop_no_space)
  have e: "endswith ?l (ustr '';'')" by (simp add: endswith_def suffix_def)
  have "preprocess_lines (str_split ?l 10) = Inr [(0, ?l)]"
    using ne e by (simp add: str_split_no_newline[OF nl] preprocess_lines_def rc st ind
          del: append_is_Nil_conv)
  then show ?thesis
    by (simp add: compile_def initial_def split: sum.splits)
qed

text \<open>The handler a statement is dispatched to.\<close>

lemma process_line_ent:
  "process_line U self i (ustr ''ent '' @ v @ ustr '';'') = handle_ent U (end_loops self i) v"
  by (simp add: process_line_def ustr_def startswith_def endswith_def suffix_to_prefix)

lemma process_line_shift:
  "process_line U self i (ustr ''<<'' @ t @ ustr '';'') =
     handle_multi_shift U (end_loops self i) (ustr ''<<'' @ t)"
  "process_line U self i (ustr ''>>'' @ t @ ustr '';'') =
     handle_multi_shift U (end_loops self i) (ustr ''>>'' @ t)"
  by (simp_all add: process_line_def ustr_def startswith_def endswith_def suffix_to_prefix)

lemma process_line_inc:
  "process_line U self i (ustr ''inc '' @ t @ ustr '';'') =
     handle_inc U (end_loops self i) (ustr ''inc '' @ t)"
  by (simp add: process_line_def ustr_def startswith_def endswith_def suffix_to_prefix)

lemma process_line_dec:
  "process_line U self i (ustr ''dec '' @ t @ ustr '';'') =
     handle_dec U (end_loops self i) (ustr ''dec '' @ t)"
  by (simp add: process_line_def ustr_def startswith_def endswith_def suffix_to_prefix)

lemma initial_fields [simp]: "output_chunks initial = []" "loop_stack initial = []"
  by (simp_all add: initial_def)

lemma ustr_append: "ustr a @ ustr b = ustr (a @ b)"
  by (simp add: ustr_def)

lemma ustr_append_assoc: "ustr a @ ustr b @ t = ustr (a @ b) @ t"
  by (simp add: ustr_def)

lemma str_mul_char: "str_mul (ustr [c]) n = replicate n (of_char c)"
  by (simp add: ustr_def str_mul_single)

lemma end_loops_initial [simp]: "end_loops initial i = initial"
  by (simp add: end_loops_stop_empty initial_def)

lemma close_remaining_emit_initial [simp]:
  "close_remaining (emit initial chunks) = emit initial chunks"
  by (simp add: close_remaining_stop initial_def emit_def)

lemma output_emit_initial [simp]: "output_chunks (emit initial chunks) = chunks"
  by (simp add: initial_def emit_def)

lemma digits_value_simps [simp]:
  "digits_value (ustr ''0'') = 0" "digits_value (ustr ''255'') = 255"
  "digits_value (ustr ''256'') = 256" "digits_value (ustr ''3'') = 3"
  by (simp_all add: digits_value_def ustr_def)

lemma digit_string_simps [simp]:
  "digit_string (ustr ''0'')" "digit_string (ustr ''255'')" "digit_string (ustr ''256'')"
  "digit_string (ustr ''3'')"
  by (simp_all add: digit_string_def ustr_def)

lemma compile_ent_digits:
  assumes "ascii_table U" and "digit_string ds"
  shows "compile U (ustr ''ent '' @ ds @ ustr '';'') =
     (if digits_value ds \<le> 255
      then Inr (ustr ''[-]'' @ replicate (digits_value ds) (of_char CHR ''+''))
      else Inl (ErrorOnLine 1 (ValueTooLarge (digits_value ds))))"
proof -
  have "compile U ((ustr ''ent '' @ ds) @ ustr '';'') =
     (case process_line U initial 0 ((ustr ''ent '' @ ds) @ ustr '';'') of
        Inl e \<Rightarrow> Inl (ErrorOnLine 1 e)
      | Inr self' \<Rightarrow> Inr (concat (output_chunks (close_remaining self'))))"
    using digit_string_no_slash[OF assms(2)]
    by (intro compile_single_line) (simp_all add: ustr_def isspace_def)
  then show ?thesis
    by (simp add: process_line_ent handle_ent_digits[OF assms] str_mul_char)
qed

text \<open>The loop over the characters of a string literal.\<close>

lemma ent_string_loop_later:
  "0 < k \<Longrightarrow> \<exists>chunks. ent_string_loop self k s = emit self chunks
      \<and> concat chunks = concat (map (\<lambda>d. ustr ''>'' @ cell_tokens d) s)"
proof (induction s arbitrary: self k)
  case Nil
  show ?case by (intro exI[of _ "[]"]) simp
next
  case (Cons c s)
  let ?pre = "[ustr ''>'', ustr ''[-]'', str_mul (ustr ''+'') c]"
  from Cons.IH[of "k + 1" "emit self ?pre"] obtain chunks where
    e: "ent_string_loop (emit self ?pre) (k + 1) s = emit (emit self ?pre) chunks"
    and c: "concat chunks = concat (map (\<lambda>d. ustr ''>'' @ cell_tokens d) s)"
    by auto
  from Cons.prems e have "ent_string_loop self k (c # s) = emit self (?pre @ chunks)"
    by (simp add: output_append_emit)
  moreover from c have "concat (?pre @ chunks) = concat (map (\<lambda>d. ustr ''>'' @ cell_tokens d) (c # s))"
    by (simp add: cell_tokens_def str_mul_char)
  ultimately show ?case by blast
qed

lemma ent_string_loop_tokens:
  "\<exists>chunks. ent_string_loop self 0 s = emit self chunks
      \<and> concat chunks = string_literal_tokens s"
proof (cases s)
  case Nil
  then show ?thesis by (intro exI[of _ "[]"]) simp
next
  case (Cons c cs)
  let ?pre = "[ustr ''[-]'', str_mul (ustr ''+'') c]"
  from ent_string_loop_later[of 1 "emit self ?pre" cs] obtain chunks where
    e: "ent_string_loop (emit self ?pre) 1 cs = emit (emit self ?pre) chunks"
    and c: "concat chunks = concat (map (\<lambda>d. ustr ''>'' @ cell_tokens d) cs)"
    by auto
  from e Cons have "ent_string_loop self 0 s = emit self (?pre @ chunks)"
    by (simp add: output_append_emit)
  moreover from c Cons have "concat (?pre @ chunks) = string_literal_tokens s"
    by (simp add: cell_tokens_def str_mul_char)
  ultimately show ?thesis by blast
qed

lemma handle_ent_string:
  "handle_ent U self (ustr [CHR 0x22] @ s @ ustr [CHR 0x22]) = Inr (ent_string_loop self 0 s)"
proof -
  let ?v = "ustr [CHR 0x22] @ s @ ustr [CHR 0x22]"
  have st: "strip ?v = ?v"
    by (rule strip_id) (simp_all add: ustr_def isspace_def)
  have "hd ?v = 34" by (simp add: ustr_def)
  then have ni: "?v \<noteq> ustr ''input''" by (auto simp: ustr_def)
  have nq: "\<not> startswith ?v (ustr [CHR 0x27])" by (simp add: startswith_def ustr_def)
  have q: "startswith ?v (ustr [CHR 0x22])" "endswith ?v (ustr [CHR 0x22])"
    by (simp_all add: startswith_def endswith_def suffix_def ustr_def)
  have c: "drop 1 (take (length ?v - 1) ?v) = s" by (simp add: ustr_def)
  show ?thesis
    unfolding handle_ent_def st Let_def using ni nq q c by simp
qed

text \<open>The handlers of shifts, \<open>inc\<close> and \<open>dec\<close> on a statement with an amount.\<close>

lemma handle_multi_shift_left:
  "handle_multi_shift U self (ustr ''<<'' @ t) =
     (if \<not> isdigit U t then Inl (InvalidShiftNumber (ustr ''<<'' @ t))
      else case int_of_str U t of
             None \<Rightarrow> Inl (InvalidIntLiteral t)
           | Some n \<Rightarrow>
               if n = 0 then Inl (ShiftsNotPositive (ustr ''<<'' @ t))
               else Inr (emit self [replicate n (of_char CHR ''<'')]))"
  by (simp add: handle_multi_shift_def startswith_def ustr_def output_append_emit str_mul_single
      split: option.splits)

lemma handle_multi_shift_right:
  "handle_multi_shift U self (ustr ''>>'' @ t) =
     (if \<not> isdigit U t then Inl (InvalidShiftNumber (ustr ''>>'' @ t))
      else case int_of_str U t of
             None \<Rightarrow> Inl (InvalidIntLiteral t)
           | Some n \<Rightarrow>
               if n = 0 then Inl (ShiftsNotPositive (ustr ''>>'' @ t))
               else Inr (emit self [replicate n (of_char CHR ''>'')]))"
  by (simp add: handle_multi_shift_def startswith_def ustr_def output_append_emit str_mul_single
      split: option.splits)

lemma strip_Nil_if_spaces:
  assumes "\<forall>x \<in> set t. isspace x"
  shows "strip t = []"
proof -
  from assms have d: "dropWhile isspace t = []" by (induction t) simp_all
  show ?thesis by (simp add: strip_def d)
qed

lemma strip_keyword_amount:
  assumes "strip t \<noteq> []" and "k \<noteq> []" and "\<not> isspace (hd k)"
  shows "length (strip (k @ t)) > length k"
proof -
  from assms(1) obtain x where x: "x \<in> set t" "\<not> isspace x"
    using strip_Nil_if_spaces by blast
  from assms(2,3) have a: "dropWhile isspace (k @ t) = k @ t"
    by (cases k) simp_all
  from x have b: "dropWhile isspace (rev t @ rev k) = dropWhile isspace (rev t) @ rev k"
    by (intro dropWhile_append1[of x]) simp_all
  have ne: "dropWhile isspace (rev t) \<noteq> []"
  proof
    assume "dropWhile isspace (rev t) = []"
    then have "\<forall>y \<in> set (rev t). isspace y" by (simp only: dropWhile_eq_Nil_conv)
    with x show False by simp
  qed
  have "strip (k @ t) = k @ rev (dropWhile isspace (rev t))"
    by (simp add: strip_def a b)
  with ne show ?thesis by simp
qed

lemma handle_inc_amount:
  assumes "strip t \<noteq> []"
  shows "handle_inc U self (ustr ''inc '' @ t) =
     (if \<not> isdigit U (strip t) then Inl (InvalidIncAmount (strip t))
      else case int_of_str U (strip t) of
             None \<Rightarrow> Inl (InvalidIntLiteral (strip t))
           | Some n \<Rightarrow>
               if n = 0 then Inl (IncNotPositive n)
               else Inr (emit self [replicate n (of_char CHR ''+'')]))"
proof -
  have "length (strip (ustr ''inc '' @ t)) > length (ustr ''inc '')"
    using assms by (intro strip_keyword_amount) (simp_all add: ustr_def isspace_def)
  then have "strip (ustr ''inc '' @ t) \<noteq> ustr ''inc''" by (auto simp: ustr_def)
  moreover have "startswith (ustr ''inc '' @ t) (ustr ''inc '')" by (simp add: startswith_def)
  moreover have "drop 4 (ustr ''inc '' @ t) = t" by (simp add: ustr_def)
  ultimately show ?thesis
    by (simp add: handle_inc_def output_append_emit str_mul_char split: option.splits)
qed

lemma handle_dec_amount:
  assumes "strip t \<noteq> []"
  shows "handle_dec U self (ustr ''dec '' @ t) =
     (if \<not> isdigit U (strip t) then Inl (InvalidDecAmount (strip t))
      else case int_of_str U (strip t) of
             None \<Rightarrow> Inl (InvalidIntLiteral (strip t))
           | Some n \<Rightarrow>
               if n = 0 then Inl (DecNotPositive n)
               else Inr (emit self [replicate n (of_char CHR ''-'')]))"
proof -
  have "length (strip (ustr ''dec '' @ t)) > length (ustr ''dec '')"
    using assms by (intro strip_keyword_amount) (simp_all add: ustr_def isspace_def)
  then have "strip (ustr ''dec '' @ t) \<noteq> ustr ''dec''" by (auto simp: ustr_def)
  moreover have "startswith (ustr ''dec '' @ t) (ustr ''dec '')" by (simp add: startswith_def)
  moreover have "drop 4 (ustr ''dec '' @ t) = t" by (simp add: ustr_def)
  ultimately show ?thesis
    by (simp add: handle_dec_def output_append_emit str_mul_char split: option.splits)
qed

lemma digit_string_strip: "digit_string ds \<Longrightarrow> strip ds \<noteq> []"
  by (simp add: strip_digit_string) (simp add: digit_string_def)

lemma compile_statement:
  assumes "10 \<notin> set s" and "47 \<notin> set s" and "\<not> isspace (hd s)"
    and "process_line U initial 0 (s @ ustr '';'') = r"
  shows "compile U (s @ ustr '';'') =
     (case r of
        Inl e \<Rightarrow> Inl (ErrorOnLine 1 e)
      | Inr self' \<Rightarrow> Inr (concat (output_chunks (close_remaining self'))))"
  using compile_single_line[OF assms(1-3), of U] assms(4) by simp

lemma compile_amount:
  assumes "ascii_table U" and "digit_string ds"
  shows "compile U (ustr ''<<'' @ ds @ ustr '';'') =
           (if 0 < digits_value ds then Inr (replicate (digits_value ds) (of_char CHR ''<''))
            else Inl (ErrorOnLine 1 (ShiftsNotPositive (ustr ''<<'' @ ds))))"
    and "compile U (ustr ''>>'' @ ds @ ustr '';'') =
           (if 0 < digits_value ds then Inr (replicate (digits_value ds) (of_char CHR ''>''))
            else Inl (ErrorOnLine 1 (ShiftsNotPositive (ustr ''>>'' @ ds))))"
    and "compile U (ustr ''inc '' @ ds @ ustr '';'') =
           (if 0 < digits_value ds then Inr (replicate (digits_value ds) (of_char CHR ''+''))
            else Inl (ErrorOnLine 1 (IncNotPositive 0)))"
    and "compile U (ustr ''dec '' @ ds @ ustr '';'') =
           (if 0 < digits_value ds then Inr (replicate (digits_value ds) (of_char CHR ''-''))
            else Inl (ErrorOnLine 1 (DecNotPositive 0)))"
proof -
  note d = isdigit_ascii[OF assms] int_of_str_ascii[OF assms] strip_digit_string[OF assms(2)]
  from assms(2) have ne: "strip ds \<noteq> []" by (rule digit_string_strip)
  have ok: "10 \<notin> set (k @ ds)" "47 \<notin> set (k @ ds)" "\<not> isspace (hd (k @ ds))"
    if "10 \<notin> set k" "47 \<notin> set k" "k \<noteq> []" "\<not> isspace (hd k)" for k
    using that digit_string_no_slash[OF assms(2)] by simp_all
  have "process_line U initial 0 ((ustr ''<<'' @ ds) @ ustr '';'') =
      (if 0 < digits_value ds then Inr (emit initial [replicate (digits_value ds) (of_char CHR ''<'')])
       else Inl (ShiftsNotPositive (ustr ''<<'' @ ds)))"
    using process_line_shift(1)[of U initial 0 ds] by (simp add: handle_multi_shift_left d)
  from compile_statement[OF ok this]
  show "compile U (ustr ''<<'' @ ds @ ustr '';'') =
           (if 0 < digits_value ds then Inr (replicate (digits_value ds) (of_char CHR ''<''))
            else Inl (ErrorOnLine 1 (ShiftsNotPositive (ustr ''<<'' @ ds))))"
    by (simp add: ustr_def isspace_def)
  have "process_line U initial 0 ((ustr ''>>'' @ ds) @ ustr '';'') =
      (if 0 < digits_value ds then Inr (emit initial [replicate (digits_value ds) (of_char CHR ''>'')])
       else Inl (ShiftsNotPositive (ustr ''>>'' @ ds)))"
    using process_line_shift(2)[of U initial 0 ds] by (simp add: handle_multi_shift_right d)
  from compile_statement[OF ok this]
  show "compile U (ustr ''>>'' @ ds @ ustr '';'') =
           (if 0 < digits_value ds then Inr (replicate (digits_value ds) (of_char CHR ''>''))
            else Inl (ErrorOnLine 1 (ShiftsNotPositive (ustr ''>>'' @ ds))))"
    by (simp add: ustr_def isspace_def)
  have "process_line U initial 0 ((ustr ''inc '' @ ds) @ ustr '';'') =
      (if 0 < digits_value ds then Inr (emit initial [replicate (digits_value ds) (of_char CHR ''+'')])
       else Inl (IncNotPositive 0))"
    using process_line_inc[of U initial 0 ds] by (simp add: handle_inc_amount[OF ne] d)
  from compile_statement[OF ok this]
  show "compile U (ustr ''inc '' @ ds @ ustr '';'') =
           (if 0 < digits_value ds then Inr (replicate (digits_value ds) (of_char CHR ''+''))
            else Inl (ErrorOnLine 1 (IncNotPositive 0)))"
    by (simp add: ustr_def isspace_def)
  have "process_line U initial 0 ((ustr ''dec '' @ ds) @ ustr '';'') =
      (if 0 < digits_value ds then Inr (emit initial [replicate (digits_value ds) (of_char CHR ''-'')])
       else Inl (DecNotPositive 0))"
    using process_line_dec[of U initial 0 ds] by (simp add: handle_dec_amount[OF ne] d)
  from compile_statement[OF ok this]
  show "compile U (ustr ''dec '' @ ds @ ustr '';'') =
           (if 0 < digits_value ds then Inr (replicate (digits_value ds) (of_char CHR ''-''))
            else Inl (ErrorOnLine 1 (DecNotPositive 0)))"
    by (simp add: ustr_def isspace_def)
qed

section \<open>The claims\<close>

subsection \<open>C1: brackets are balanced and well nested\<close>

text \<open>
  Claim C1. For every source program that compiles without error, the output holds as
  many loop-open as loop-close brackets, and they are properly nested: the prefix-sum
  walk (\<open>+1\<close> for an opening, \<open>-1\<close> for a closing bracket) is never negative and ends
  at 0. Loops that the source leaves open are covered: \<open>compile\<close> closes them at the end
  of the input.
\<close>

theorem C1_brackets_balanced:
  assumes "compile U src = Inr out"
  shows "count_list out (of_char CHR ''['') = count_list out (of_char CHR '']'')
       \<and> (\<forall>k \<le> length out. 0 \<le> bracket_depth (take k out))
       \<and> bracket_depth out = 0"
proof -
  from assms obtain ls self where
    run: "process_lines U initial 1 ls = Inr self"
    and out: "out = concat (output_chunks (close_remaining self))"
    by (rule compile_Inr)
  have "balanced_state self"
  proof (rule process_lines_invariant[where P = balanced_state])
    show "balanced_state initial"
      by (simp add: balanced_state_def initial_def)
    show "process_lines U initial 1 ls = Inr self"
      by (rule run)
  qed (rule balanced_process_line)
  from balanced_close_remaining[OF this] out
  have w: "walk 0 out" and d: "bracket_depth out = 0" by simp_all
  from d have "count_list out (of_char CHR ''['') = count_list out (of_char CHR '']'')"
    by (simp add: bracket_depth_count)
  moreover from w have "\<forall>k \<le> length out. 0 \<le> bracket_depth (take k out)"
    using walk_prefixes[of 0 out] by simp
  ultimately show ?thesis using d by simp
qed

text \<open>
  A program with two nested loops, neither of them closed by a dedent: the walk is at
  depth 1 after five tokens and back at 0 at the end.
\<close>

theorem C1_brackets_balanced_witness:
  "compile ascii_digits (ustr ''loop:\<newline>  inc;\<newline>  loop:\<newline>    dec;'') = Inr (ustr ''[+[-]]'')
   \<and> count_list (ustr ''[+[-]]'') (of_char CHR ''['') = count_list (ustr ''[+[-]]'') (of_char CHR '']'')
   \<and> bracket_depth (take 5 (ustr ''[+[-]]'')) = 1
   \<and> bracket_depth (ustr ''[+[-]]'') = 0"
proof -
  have c: "compile ascii_digits (ustr ''loop:\<newline>  inc;\<newline>  loop:\<newline>    dec;'') = Inr (ustr ''[+[-]]'')"
    by (simp add: compile_eval)
  from C1_brackets_balanced[OF c] show ?thesis
    using c by (simp add: ustr_def bracket_depth_def bracket_step_def)
qed

subsection \<open>C2: characters beyond 255\<close>

text \<open>
  Claim C2 says that a character literal, or a character of a string literal, whose code
  point exceeds 255 makes the compilation fail with a range error. The code checks the
  range of integer literals only (\<open>ent 256;\<close> fails). For the character U+0100, code
  point 256, both the character literal and the string literal compile, to the clear
  idiom followed by 256 increments; and the handler of \<open>ent\<close> accepts a character
  literal of any code point \<open>c\<close> and appends \<open>c\<close> increments (last conjunct).
\<close>

theorem C2_character_above_255_is_accepted:
  "compile ascii_digits (ustr ''ent '' @ [0x27, 0x100, 0x27] @ ustr '';'')
     = Inr (ustr ''[-]'' @ replicate 256 (of_char CHR ''+''))
   \<and> compile ascii_digits (ustr ''ent '' @ [0x22, 0x100, 0x22] @ ustr '';'')
     = Inr (ustr ''[-]'' @ replicate 256 (of_char CHR ''+''))
   \<and> compile ascii_digits (ustr ''ent 256;'') = Inl (ErrorOnLine 1 (ValueTooLarge 256))
   \<and> handle_ent U self [0x27, c, 0x27]
     = Inr (emit self [ustr ''[-]'', replicate c (of_char CHR ''+'')])"
proof -
  have "strip [0x27, c, 0x27] = [0x27, c, 0x27]"
    by (rule strip_id) (simp_all add: isspace_def)
  then have "handle_ent U self [0x27, c, 0x27]
     = Inr (emit self [ustr ''[-]'', replicate c (of_char CHR ''+'')])"
    by (simp add: handle_ent_def ustr_def startswith_def endswith_def suffix_to_prefix
        output_append_emit str_mul_single)
  moreover have "compile ascii_digits (ustr ''ent '' @ [0x27, 0x100, 0x27] @ ustr '';'')
     = Inr (ustr ''[-]'' @ replicate 256 (of_char CHR ''+''))"
    by (simp add: compile_eval)
  moreover have "compile ascii_digits (ustr ''ent '' @ [0x22, 0x100, 0x22] @ ustr '';'')
     = Inr (ustr ''[-]'' @ replicate 256 (of_char CHR ''+''))"
    by (simp add: compile_eval)
  moreover have "compile ascii_digits (ustr ''ent 256;'') = Inl (ErrorOnLine 1 (ValueTooLarge 256))"
    by (simp add: compile_eval)
  ultimately show ?thesis by simp
qed

subsection \<open>C3: which errors carry a line number\<close>

text \<open>
  Claim C3 says that every error the compiler reports is wrapped with the 1-based
  position of the offending line, errors for malformed line terminators included, and
  that compilation stops at the first error with no partial output.

  The code wraps the exceptions of \<open>_process_line\<close> only: an unknown statement on the
  second line is reported as an error on line 2 (second conjunct). The terminator check
  runs in \<open>_preprocess_lines\<close>, which \<open>compile\<close> calls before its \<open>try\<close> block, so
  the error of a line without terminator reaches the caller with the content of the
  line and no line number (first conjunct). The number that is reported counts the
  lines \<open>_preprocess_lines\<close> has kept, not the lines of the text: with two blank lines
  before it, the unknown statement on the fourth line of the text is still reported on
  line 2 (third conjunct).
\<close>

theorem C3_terminator_error_is_not_wrapped:
  "compile ascii_digits (ustr ''inc;\<newline>dec'') = Inl (LineMustEndWithSemicolon (ustr ''dec''))
   \<and> line_of (LineMustEndWithSemicolon (ustr ''dec'')) = None
   \<and> compile ascii_digits (ustr ''inc;\<newline>foo;'')
       = Inl (ErrorOnLine 2 (UnknownStatement (ustr ''foo'')))
   \<and> compile ascii_digits (ustr ''\<newline>inc;\<newline>\<newline>foo;'')
       = Inl (ErrorOnLine 2 (UnknownStatement (ustr ''foo'')))"
  by (simp add: compile_eval)

subsection \<open>C4: string literals\<close>

text \<open>
  Claim C4. The statement \<open>ent "AB";\<close> emits exactly the clear idiom, 65 increments,
  one forward shift, the clear idiom and 66 increments. In general a string literal
  emits, for each character in order, one forward shift before every character but the
  first, then the clear idiom followed by as many increments as the character's code
  point; no shift follows the last character.

  The second conjunct is the statement on any line, in any state of the compiler and for
  any string; the third is the program that consists of the statement alone, for a
  string without line feed and slash (so that the line is one line and has no comment).
\<close>

theorem C4_string_literal:
  "compile U (ustr ''ent \"AB\";'')
     = Inr (ustr ''[-]'' @ replicate 65 (of_char CHR ''+'') @ ustr ''>''
            @ ustr ''[-]'' @ replicate 66 (of_char CHR ''+''))
   \<and> (\<exists>chunks. process_line U self i (ustr ''ent \"'' @ s @ ustr ''\";'')
                  = Inr (emit (end_loops self i) chunks)
              \<and> concat chunks = string_literal_tokens s)
   \<and> (10 \<notin> set s \<and> 47 \<notin> set s \<longrightarrow>
        compile U (ustr ''ent \"'' @ s @ ustr ''\";'') = Inr (string_literal_tokens s))"
proof -
  have split: "ustr ''ent \"'' @ t @ ustr ''\";'' = ustr ''ent '' @ (ustr [CHR 0x22] @ t @ ustr [CHR 0x22]) @ ustr '';''" for t
    by (simp add: ustr_def)
  from ent_string_loop_tokens[of "end_loops self i" s] obtain chunks where
    c: "ent_string_loop (end_loops self i) 0 s = emit (end_loops self i) chunks"
      "concat chunks = string_literal_tokens s" by blast
  then have gen: "\<exists>chunks. process_line U self i (ustr ''ent \"'' @ s @ ustr ''\";'')
                  = Inr (emit (end_loops self i) chunks)
              \<and> concat chunks = string_literal_tokens s"
    unfolding split
    using process_line_ent[of U self i "ustr [CHR 0x22] @ s @ ustr [CHR 0x22]"]
    by (auto simp: handle_ent_string)
  have comp: "compile U (ustr ''ent \"'' @ s @ ustr ''\";'') = Inr (string_literal_tokens s)"
    if "10 \<notin> set s" "47 \<notin> set s" for s
  proof -
    from ent_string_loop_tokens[of initial s] obtain chunks where
      c: "ent_string_loop initial 0 s = emit initial chunks"
        "concat chunks = string_literal_tokens s" by blast
    have "compile U ((ustr ''ent '' @ ustr [CHR 0x22] @ s @ ustr [CHR 0x22]) @ ustr '';'') =
       (case process_line U initial 0 ((ustr ''ent '' @ ustr [CHR 0x22] @ s @ ustr [CHR 0x22]) @ ustr '';'') of
          Inl e \<Rightarrow> Inl (ErrorOnLine 1 e)
        | Inr self' \<Rightarrow> Inr (concat (output_chunks (close_remaining self'))))"
      using that by (intro compile_single_line) (simp_all add: ustr_def isspace_def)
    then show ?thesis
      unfolding split
      using c process_line_ent[of U initial 0 "ustr [CHR 0x22] @ s @ ustr [CHR 0x22]"]
      by (simp add: handle_ent_string)
  qed
  have "compile U (ustr ''ent \"AB\";'')
     = Inr (ustr ''[-]'' @ replicate 65 (of_char CHR ''+'') @ ustr ''>''
            @ ustr ''[-]'' @ replicate 66 (of_char CHR ''+''))"
    using comp[of "ustr ''AB''"] by (simp add: ustr_def cell_tokens_def)
  with gen comp show ?thesis by blast
qed

text \<open>A string of three characters.\<close>

theorem C4_string_literal_witness:
  "10 \<notin> set (ustr ''Hi!'') \<and> 47 \<notin> set (ustr ''Hi!'')
   \<and> compile ascii_digits (ustr ''ent \"Hi!\";'')
       = Inr (ustr ''[-]'' @ replicate 72 (of_char CHR ''+'')
              @ ustr ''>[-]'' @ replicate 105 (of_char CHR ''+'')
              @ ustr ''>[-]'' @ replicate 33 (of_char CHR ''+''))"
proof -
  have n: "10 \<notin> set (ustr ''Hi!'') \<and> 47 \<notin> set (ustr ''Hi!'')" by (simp add: ustr_def)
  from C4_string_literal[of ascii_digits _ _ "ustr ''Hi!''"] n show ?thesis
    by (simp add: ustr_def cell_tokens_def)
qed

subsection \<open>C5: integer literals\<close>

text \<open>
  Claim C5. For every decimal integer operand \<open>N\<close> (digits only), \<open>ent N;\<close> emits the
  clear idiom followed by exactly \<open>N\<close> increments when \<open>N \<le> 255\<close>, so \<open>ent 0;\<close> emits
  the clear idiom alone; when \<open>N > 255\<close> it fails with a range error (a \<open>ValueError\<close>)
  that names the value, so \<open>ent 256;\<close> fails.

  The first conjunct is the program that consists of the statement, the second the
  statement on any line of a program, in any state of the compiler.
\<close>

theorem C5_integer_literal:
  assumes "ascii_table U" and "digit_string ds"
  shows "compile U (ustr ''ent '' @ ds @ ustr '';'') =
           (if digits_value ds \<le> 255
            then Inr (ustr ''[-]'' @ replicate (digits_value ds) (of_char CHR ''+''))
            else Inl (ErrorOnLine 1 (ValueTooLarge (digits_value ds))))
       \<and> process_line U self i (ustr ''ent '' @ ds @ ustr '';'') =
           (if digits_value ds \<le> 255
            then Inr (emit (end_loops self i)
                       [ustr ''[-]'', replicate (digits_value ds) (of_char CHR ''+'')])
            else Inl (ValueTooLarge (digits_value ds)))
       \<and> class_of (ValueTooLarge (digits_value ds)) = ValueError
       \<and> compile U (ustr ''ent 0;'') = Inr (ustr ''[-]'')
       \<and> compile U (ustr ''ent 255;'') = Inr (ustr ''[-]'' @ replicate 255 (of_char CHR ''+''))
       \<and> compile U (ustr ''ent 256;'') = Inl (ErrorOnLine 1 (ValueTooLarge 256))"
proof -
  have "process_line U self i (ustr ''ent '' @ ds @ ustr '';'') =
           (if digits_value ds \<le> 255
            then Inr (emit (end_loops self i)
                       [ustr ''[-]'', replicate (digits_value ds) (of_char CHR ''+'')])
            else Inl (ValueTooLarge (digits_value ds)))"
    by (simp add: process_line_ent handle_ent_digits[OF assms] str_mul_char)
  moreover have "compile U (ustr ''ent 0;'') = Inr (ustr ''[-]'')"
    using compile_ent_digits[OF assms(1) digit_string_simps(1)]
    by (simp add: ustr_append_assoc ustr_append)
  moreover have "compile U (ustr ''ent 255;'') = Inr (ustr ''[-]'' @ replicate 255 (of_char CHR ''+''))"
    using compile_ent_digits[OF assms(1) digit_string_simps(2)]
    by (simp add: ustr_append_assoc ustr_append)
  moreover have "compile U (ustr ''ent 256;'') = Inl (ErrorOnLine 1 (ValueTooLarge 256))"
    using compile_ent_digits[OF assms(1) digit_string_simps(3)]
    by (simp add: ustr_append_assoc ustr_append)
  ultimately show ?thesis
    using compile_ent_digits[OF assms] by simp
qed

text \<open>An operand with leading zeros, and the smallest operand out of range.\<close>

theorem C5_integer_literal_witness:
  "ascii_table ascii_digits \<and> digit_string (ustr ''007'') \<and> digits_value (ustr ''007'') = 7
   \<and> compile ascii_digits (ustr ''ent 007;'') = Inr (ustr ''[-]+++++++'')
   \<and> compile ascii_digits (ustr ''ent 256;'') = Inl (ErrorOnLine 1 (ValueTooLarge 256))"
proof -
  have a: "ascii_table ascii_digits" by (simp add: ascii_table_def)
  have d: "digit_string (ustr ''007'')" by (simp add: digit_string_def ustr_def)
  have v: "digits_value (ustr ''007'') = 7" by (simp add: digits_value_def ustr_def)
  have r: "replicate 7 (43::nat) = ustr ''+++++++''" by (simp add: ustr_def numeral_eq_Suc)
  from C5_integer_literal[OF a d] v r a d show ?thesis
    by (simp add: ustr_append_assoc ustr_append)
qed

subsection \<open>C6: shift counts and amounts\<close>

text \<open>
  Claim C6. For every amount \<open>N\<close> that is a strictly positive integer literal, \<open><<N;\<close>
  emits exactly \<open>N\<close> backward shifts, \<open>>>N;\<close> \<open>N\<close> forward shifts, \<open>inc N;\<close> \<open>N\<close>
  increments and \<open>dec N;\<close> \<open>N\<close> decrements; in all four forms an amount that is zero,
  negative or not made of digits fails with a syntax or value error. So \<open><<3;\<close> emits
  three backward shifts, and \<open>>>0;\<close> and \<open><<-1;\<close> fail.

  The conjuncts, in order: the four programs of one statement with a digit string as the
  amount (positive: the tokens; zero: the error); an amount that \<open>isdigit\<close> rejects, in
  a shift and in \<open>inc\<close> and \<open>dec\<close>, on any line and in any state; a text that starts with
  a minus sign is such an amount; whenever one of the four statements is processed
  without error, its amount is a digit string of positive value; the three examples.
\<close>

theorem C6_amounts:
  assumes "ascii_table U"
  shows "(digit_string ds \<longrightarrow>
            compile U (ustr ''<<'' @ ds @ ustr '';'') =
              (if 0 < digits_value ds
               then Inr (replicate (digits_value ds) (of_char CHR ''<''))
               else Inl (ErrorOnLine 1 (ShiftsNotPositive (ustr ''<<'' @ ds))))
          \<and> compile U (ustr ''>>'' @ ds @ ustr '';'') =
              (if 0 < digits_value ds
               then Inr (replicate (digits_value ds) (of_char CHR ''>''))
               else Inl (ErrorOnLine 1 (ShiftsNotPositive (ustr ''>>'' @ ds))))
          \<and> compile U (ustr ''inc '' @ ds @ ustr '';'') =
              (if 0 < digits_value ds
               then Inr (replicate (digits_value ds) (of_char CHR ''+''))
               else Inl (ErrorOnLine 1 (IncNotPositive 0)))
          \<and> compile U (ustr ''dec '' @ ds @ ustr '';'') =
              (if 0 < digits_value ds
               then Inr (replicate (digits_value ds) (of_char CHR ''-''))
               else Inl (ErrorOnLine 1 (DecNotPositive 0))))
       \<and> (\<not> isdigit U t \<longrightarrow>
            process_line U self i (ustr ''<<'' @ t @ ustr '';'')
              = Inl (InvalidShiftNumber (ustr ''<<'' @ t))
          \<and> process_line U self i (ustr ''>>'' @ t @ ustr '';'')
              = Inl (InvalidShiftNumber (ustr ''>>'' @ t)))
       \<and> (strip t \<noteq> [] \<and> \<not> isdigit U (strip t) \<longrightarrow>
            process_line U self i (ustr ''inc '' @ t @ ustr '';'')
              = Inl (InvalidIncAmount (strip t))
          \<and> process_line U self i (ustr ''dec '' @ t @ ustr '';'')
              = Inl (InvalidDecAmount (strip t)))
       \<and> \<not> isdigit U (ustr ''-'' @ t)
       \<and> (\<forall>self'. process_line U self i (ustr ''<<'' @ t @ ustr '';'') = Inr self'
                  \<or> process_line U self i (ustr ''>>'' @ t @ ustr '';'') = Inr self'
            \<longrightarrow> isdigit U t \<and> (\<exists>n. 0 < n \<and> int_of_str U t = Some n))
       \<and> (\<forall>self'. strip t \<noteq> []
                \<and> (process_line U self i (ustr ''inc '' @ t @ ustr '';'') = Inr self'
                   \<or> process_line U self i (ustr ''dec '' @ t @ ustr '';'') = Inr self')
            \<longrightarrow> isdigit U (strip t) \<and> (\<exists>n. 0 < n \<and> int_of_str U (strip t) = Some n))
       \<and> compile U (ustr ''<<3;'') = Inr (ustr ''<<<'')
       \<and> compile U (ustr ''>>0;'') = Inl (ErrorOnLine 1 (ShiftsNotPositive (ustr ''>>0'')))
       \<and> compile U (ustr ''<<-1;'') = Inl (ErrorOnLine 1 (InvalidShiftNumber (ustr ''<<-1'')))"
proof -
  note amount = compile_amount[OF assms]
  have neg: "\<not> isdigit U (ustr ''-'' @ t)" for t
    using ascii_table_other[OF assms, of 45] by (simp add: isdigit_def ustr_def)
  have shift_fail: "process_line U self i (ustr ''<<'' @ t @ ustr '';'')
              = Inl (InvalidShiftNumber (ustr ''<<'' @ t))
          \<and> process_line U self i (ustr ''>>'' @ t @ ustr '';'')
              = Inl (InvalidShiftNumber (ustr ''>>'' @ t))" if "\<not> isdigit U t" for t self i
    using that by (simp add: process_line_shift handle_multi_shift_left handle_multi_shift_right)
  have inc_fail: "process_line U self i (ustr ''inc '' @ t @ ustr '';'')
              = Inl (InvalidIncAmount (strip t))
          \<and> process_line U self i (ustr ''dec '' @ t @ ustr '';'')
              = Inl (InvalidDecAmount (strip t))" if "strip t \<noteq> []" "\<not> isdigit U (strip t)"
    using that by (simp add: process_line_inc process_line_dec handle_inc_amount handle_dec_amount)
  have shift_only: "isdigit U t \<and> (\<exists>n. 0 < n \<and> int_of_str U t = Some n)"
    if "process_line U self i (ustr ''<<'' @ t @ ustr '';'') = Inr self'
        \<or> process_line U self i (ustr ''>>'' @ t @ ustr '';'') = Inr self'" for self'
    using that
    by (auto simp: process_line_shift handle_multi_shift_left handle_multi_shift_right
        split: if_splits option.splits)
  have inc_only: "isdigit U (strip t) \<and> (\<exists>n. 0 < n \<and> int_of_str U (strip t) = Some n)"
    if "strip t \<noteq> []" "process_line U self i (ustr ''inc '' @ t @ ustr '';'') = Inr self'
        \<or> process_line U self i (ustr ''dec '' @ t @ ustr '';'') = Inr self'" for self'
    using that
    by (auto simp: process_line_inc process_line_dec handle_inc_amount handle_dec_amount
        split: if_splits option.splits)
  have e1: "compile U (ustr ''<<3;'') = Inr (ustr ''<<<'')"
    using amount(1)[OF digit_string_simps(4)]
    by (simp add: ustr_append_assoc ustr_append) (simp add: ustr_def replicate_small)
  have e2: "compile U (ustr ''>>0;'') = Inl (ErrorOnLine 1 (ShiftsNotPositive (ustr ''>>0'')))"
    using amount(2)[OF digit_string_simps(1)]
    by (simp add: ustr_append_assoc ustr_append)
  have "compile U ((ustr ''<<-1'') @ ustr '';'') =
      (case process_line U initial 0 ((ustr ''<<-1'') @ ustr '';'') of
        Inl e \<Rightarrow> Inl (ErrorOnLine 1 e)
      | Inr self' \<Rightarrow> Inr (concat (output_chunks (close_remaining self'))))"
    by (intro compile_single_line) (simp_all add: ustr_def isspace_def)
  moreover have "process_line U initial 0 (ustr ''<<'' @ ustr ''-1'' @ ustr '';'')
      = Inl (InvalidShiftNumber (ustr ''<<'' @ ustr ''-1''))"
    using shift_fail[of "ustr ''-1''" initial 0] neg[of "ustr ''1''"]
    by (simp add: ustr_append)
  ultimately have e3: "compile U (ustr ''<<-1;'') = Inl (ErrorOnLine 1 (InvalidShiftNumber (ustr ''<<-1'')))"
    by (simp add: ustr_append_assoc ustr_append)
  show ?thesis
    using amount neg[of t] shift_fail[of t self i] inc_fail shift_only inc_only e1 e2 e3
    by blast
qed

text \<open>The amounts \<open>12\<close> and \<open>x2\<close>.\<close>

theorem C6_amounts_witness:
  "ascii_table ascii_digits \<and> digit_string (ustr ''12'') \<and> digits_value (ustr ''12'') = 12
   \<and> compile ascii_digits (ustr ''>>12;'') = Inr (replicate 12 (of_char CHR ''>''))
   \<and> compile ascii_digits (ustr ''dec 12;'') = Inr (replicate 12 (of_char CHR ''-''))
   \<and> \<not> isdigit ascii_digits (ustr ''x2'')
   \<and> process_line ascii_digits initial 0 (ustr ''inc x2;'') = Inl (InvalidIncAmount (ustr ''x2''))
   \<and> process_line ascii_digits initial 0 (ustr ''<<x2;'') = Inl (InvalidShiftNumber (ustr ''<<x2''))"
proof -
  have a: "ascii_table ascii_digits" by (simp add: ascii_table_def)
  have d: "digit_string (ustr ''12'')" by (simp add: digit_string_def ustr_def)
  have v: "digits_value (ustr ''12'') = 12" by (simp add: digits_value_def ustr_def)
  have n: "\<not> isdigit ascii_digits (ustr ''x2'')"
    by (simp add: isdigit_def ustr_def ascii_digits_def)
  have s: "strip (ustr ''x2'') = ustr ''x2''"
    by (simp add: strip_def ustr_def isspace_def)
  have e: "ustr ''x2'' \<noteq> []" by (simp add: ustr_def)
  from C6_amounts[OF a, of "ustr ''12''" "ustr ''x2''" initial 0] d v n s e a
  show ?thesis
    by (simp add: ustr_append_assoc ustr_append)
qed

subsection \<open>C7: the loop stack is strictly increasing\<close>

text \<open>
  Claim C7. At every point of a compilation the loop stack is strictly increasing from
  bottom to top. Before a line's statement is emitted, frames are popped while the stack
  is not empty and the line's indentation is at most the top frame's: what is left are
  the frames strictly shallower than the line. So a \<open>loop:\<close> at the indentation of
  an open loop closes that loop before it pushes its own frame, and two adjacent frames
  never share an indentation.

  Every state of a compilation satisfies \<open>reach\<close>: see \<open>reach_process_lines\<close>,
  \<open>reach_end_loops\<close> and \<open>reach_close_remaining\<close>.
\<close>

theorem C7_loop_stack_strictly_increasing:
  assumes "reach U self"
  shows "sorted_wrt (<) (loop_stack self)
       \<and> loop_stack (end_loops self i) = takeWhile (\<lambda>x. x < i) (loop_stack self)
       \<and> loop_stack (handle_loop (end_loops self i) i)
           = takeWhile (\<lambda>x. x < i) (loop_stack self) @ [i]
       \<and> (\<forall>st. loop_stack self = st @ [i] \<longrightarrow>
             process_line U self i (ustr ''loop:'') =
               Inr (self\<lparr>output_chunks := output_chunks self @ [ustr '']'', ustr ''[''],
                         loop_stack := st @ [i]\<rparr>))"
proof -
  from assms have s: "sorted_wrt (<) (loop_stack self)" by (rule reach_sorted)
  from s have "loop_stack (end_loops self i) = takeWhile (\<lambda>x. x < i) (loop_stack self)"
    by (rule end_loops_takeWhile)
  moreover from this
  have "loop_stack (handle_loop (end_loops self i) i)
           = takeWhile (\<lambda>x. x < i) (loop_stack self) @ [i]"
    by (simp add: handle_loop_def output_append_def)
  ultimately show ?thesis using s same_indent_loop[OF s] by blast
qed

text \<open>
  The state after \<open>loop:\<close> at indentation 0 and \<open>loop:\<close> at indentation 2, and a
  third \<open>loop:\<close> at indentation 2: the inner loop is closed, the new one opened.
\<close>

theorem C7_loop_stack_strictly_increasing_witness:
  "reach ascii_digits
     \<lparr>output_chunks = [ustr ''['', ustr ''[''], current_indent = 0, loop_stack = [0, 2]\<rparr>
   \<and> sorted_wrt (<) [0, 2 :: nat]
   \<and> loop_stack (end_loops
         \<lparr>output_chunks = [ustr ''['', ustr ''[''], current_indent = 0, loop_stack = [0, 2]\<rparr> 2)
       = [0]
   \<and> process_line ascii_digits
         \<lparr>output_chunks = [ustr ''['', ustr ''[''], current_indent = 0, loop_stack = [0, 2]\<rparr>
         2 (ustr ''loop:'')
       = Inr \<lparr>output_chunks = [ustr ''['', ustr ''['', ustr '']'', ustr ''[''],
              current_indent = 0, loop_stack = [0, 2]\<rparr>"
proof -
  let ?s1 = "\<lparr>output_chunks = [ustr ''[''], current_indent = 0, loop_stack = [0]\<rparr>"
  let ?s2 = "\<lparr>output_chunks = [ustr ''['', ustr ''[''], current_indent = 0, loop_stack = [0, 2]\<rparr>"
  have "process_line ascii_digits initial 0 (ustr ''loop:'') = Inr ?s1"
    by (simp add: compile_eval)
  with reach.start have r1: "reach ascii_digits ?s1" by (rule reach.line)
  have "process_line ascii_digits ?s1 2 (ustr ''loop:'') = Inr ?s2"
    by (simp add: compile_eval)
  with r1 have r2: "reach ascii_digits ?s2" by (rule reach.line)
  from C7_loop_stack_strictly_increasing[OF r2, of 2] r2 show ?thesis
    by simp
qed

subsection \<open>C8: the terminator check comes before any statement\<close>

text \<open>
  Claim C8. For every non-blank line that survives comment stripping, if its trimmed
  content ends with neither a colon nor a semicolon, the compilation fails with a syntax
  error that identifies the line's content, and it fails before any statement is
  dispatched: the exception is raised by \<open>_preprocess_lines\<close>, which \<open>compile\<close> runs over
  the whole source before it processes the first line.

  A compilation reports one error. With several such lines in a source, the error is
  the one of the first of them (first conjunct); for a line with no such line before
  it, the error carries that line's content (second conjunct).
\<close>

theorem C8_terminator_validation:
  assumes "k < length (str_split src 10)"
    and "bad_terminator (str_split src 10 ! k)"
  shows "(\<exists>j \<le> k. bad_terminator (str_split src 10 ! j)
           \<and> (\<forall>j' < j. \<not> bad_terminator (str_split src 10 ! j'))
           \<and> preprocess_lines (str_split src 10)
               = Inl (LineMustEndWithSemicolon (line_content (str_split src 10 ! j)))
           \<and> compile U src = Inl (LineMustEndWithSemicolon (line_content (str_split src 10 ! j))))
       \<and> ((\<forall>j < k. \<not> bad_terminator (str_split src 10 ! j)) \<longrightarrow>
             preprocess_lines (str_split src 10)
               = Inl (LineMustEndWithSemicolon (line_content (str_split src 10 ! k)))
           \<and> compile U src = Inl (LineMustEndWithSemicolon (line_content (str_split src 10 ! k))))
       \<and> class_of (LineMustEndWithSemicolon (line_content (str_split src 10 ! k))) = SyntaxError"
proof -
  have fails: "preprocess_lines (str_split src 10)
               = Inl (LineMustEndWithSemicolon (line_content (str_split src 10 ! j)))
           \<and> compile U src = Inl (LineMustEndWithSemicolon (line_content (str_split src 10 ! j)))"
    if "j < length (str_split src 10)" "bad_terminator (str_split src 10 ! j)"
      "\<forall>j' < j. \<not> bad_terminator (str_split src 10 ! j')" for j
  proof -
    from preprocess_loop_first_bad[OF that]
    have "preprocess_lines (str_split src 10)
      = Inl (LineMustEndWithSemicolon (line_content (str_split src 10 ! j)))"
      by (simp add: preprocess_lines_def)
    then show ?thesis by (simp add: compile_def)
  qed
  from first_bad_exists[OF assms] obtain j where j: "j \<le> k" "bad_terminator (str_split src 10 ! j)"
    "\<forall>j' < j. \<not> bad_terminator (str_split src 10 ! j')" by blast
  with assms(1) have "j < length (str_split src 10)" by simp
  from fails[OF this j(2,3)] j have first: "\<exists>j \<le> k. bad_terminator (str_split src 10 ! j)
           \<and> (\<forall>j' < j. \<not> bad_terminator (str_split src 10 ! j'))
           \<and> preprocess_lines (str_split src 10)
               = Inl (LineMustEndWithSemicolon (line_content (str_split src 10 ! j)))
           \<and> compile U src = Inl (LineMustEndWithSemicolon (line_content (str_split src 10 ! j)))"
    by blast
  from fails[OF assms] have "(\<forall>j < k. \<not> bad_terminator (str_split src 10 ! j)) \<longrightarrow>
             preprocess_lines (str_split src 10)
               = Inl (LineMustEndWithSemicolon (line_content (str_split src 10 ! k)))
           \<and> compile U src = Inl (LineMustEndWithSemicolon (line_content (str_split src 10 ! k)))"
    by blast
  with first show ?thesis by simp
qed

text \<open>
  Three lines, the second without a terminator once its comment is removed: the error
  names \<open>dec\<close>, although the first line is a valid statement that has emitted nothing.
\<close>

theorem C8_terminator_validation_witness:
  "(1::nat) < length (str_split (ustr ''inc;\<newline>  dec // no semicolon\<newline>>;'') 10)
   \<and> bad_terminator (str_split (ustr ''inc;\<newline>  dec // no semicolon\<newline>>;'') 10 ! 1)
   \<and> line_content (str_split (ustr ''inc;\<newline>  dec // no semicolon\<newline>>;'') 10 ! 1) = ustr ''dec''
   \<and> compile ascii_digits (ustr ''inc;\<newline>  dec // no semicolon\<newline>>;'')
       = Inl (LineMustEndWithSemicolon (ustr ''dec''))"
proof -
  let ?src = "ustr ''inc;\<newline>  dec // no semicolon\<newline>>;''"
  have sp: "str_split ?src 10 = [ustr ''inc;'', ustr ''  dec // no semicolon'', ustr ''>;'']"
    by (simp add: ustr_def)
  have k: "(1::nat) < length (str_split ?src 10)" by (simp add: sp)
  have c: "line_content (str_split ?src 10 ! 1) = ustr ''dec''"
    by (simp add: sp line_content_def compile_eval)
  have b: "bad_terminator (str_split ?src 10 ! 1)"
    by (simp add: sp bad_terminator_def line_content_def compile_eval)
  have f: "\<forall>j < (1::nat). \<not> bad_terminator (str_split ?src 10 ! j)"
    by (simp add: sp bad_terminator_def line_content_def compile_eval)
  from C8_terminator_validation[OF k b, of ascii_digits] f k b c show ?thesis
    by simp
qed

subsection \<open>C9: the output alphabet\<close>

text \<open>
  Claim C9. For every source program that compiles without error, every character of
  the returned output is one of the eight tokens \<open>> < + - [ ] . ,\<close>.
\<close>

theorem C9_output_alphabet:
  assumes "compile U src = Inr out"
  shows "set out \<subseteq> set (ustr ''><+-[].,'')"
proof -
  from assms obtain ls self where
    run: "process_lines U initial 1 ls = Inr self"
    and out: "out = concat (output_chunks (close_remaining self))"
    by (rule compile_Inr)
  have "tokens_only self"
  proof (rule process_lines_invariant[where P = tokens_only])
    show "tokens_only initial"
      by (simp add: tokens_only_def initial_def)
    show "process_lines U initial 1 ls = Inr self"
      by (rule run)
  qed (rule tokens_process_line)
  then have "tokens_only (close_remaining self)"
    unfolding close_remaining_emit by (rule tokens_closers)
  with out show ?thesis by (simp add: tokens_only_def token_set_def)
qed

text \<open>A program that uses every kind of statement.\<close>

theorem C9_output_alphabet_witness:
  "compile ascii_digits
     (ustr ''ent input;\<newline>loop:\<newline>  cellout;\<newline>  >;\<newline>  <<2;\<newline>  inc;\<newline>  dec 2;\<newline>  clr;'')
     = Inr (ustr ''[-],[.><<+--[-]]'')
   \<and> set (ustr ''[-],[.><<+--[-]]'') \<subseteq> set (ustr ''><+-[].,'')"
proof -
  have c: "compile ascii_digits
     (ustr ''ent input;\<newline>loop:\<newline>  cellout;\<newline>  >;\<newline>  <<2;\<newline>  inc;\<newline>  dec 2;\<newline>  clr;'')
     = Inr (ustr ''[-],[.><<+--[-]]'')"
    by (simp add: compile_eval replicate_small)
  from C9_output_alphabet[OF c] show ?thesis
    using c by simp
qed

subsection \<open>C10: the empty string literal\<close>

text \<open>
  Claim C10. The statement \<open>ent "";\<close> compiles and emits no token at all, not even a
  clear idiom: the handler returns the compiler as it was, so the statement leaves
  the output as the line's loop closing left it, and the program of that statement
  alone compiles to the empty output.
\<close>

theorem C10_empty_string_literal:
  "compile U (ustr ''ent \"\";'') = Inr []
   \<and> process_line U self i (ustr ''ent \"\";'') = Inr (end_loops self i)
   \<and> handle_ent U self (ustr ''\"\"'') = Inr self
   \<and> compile U (ustr ''inc;\<newline>ent \"\";\<newline>inc;'') = Inr (ustr ''++'')"
proof -
  have h: "handle_ent U s (ustr ''\"\"'') = Inr s" for s
    using handle_ent_string[of U s "[]"] by (simp add: ustr_def)
  have p: "process_line U s i (ustr ''ent \"\";'') = Inr (end_loops s i)" for s i
    using process_line_ent[of U s i "ustr ''\"\"''"] h by (simp add: ustr_def)
  have "compile U (ustr ''ent \"\";'') = Inr []"
    by (simp add: compile_eval)
  moreover have "compile U (ustr ''inc;\<newline>ent \"\";\<newline>inc;'') = Inr (ustr ''++'')"
    by (simp add: compile_eval)
  ultimately show ?thesis using h p by simp
qed

theorem C10_empty_string_literal_witness:
  "compile ascii_digits (ustr ''ent \"\";'') = Inr []"
  using C10_empty_string_literal[of ascii_digits] by simp

end
